theory Spec2Isabelle
  imports Main "HOL-Library.Sublist"
begin

section \<open>The capture devices as seen by the program\<close>

text \<open>
  The program talks to cameras only through \<^verbatim>\<open>cv2.VideoCapture\<close> objects. Every
  constructed capture object gets the next number as its identity (\<open>handle\<close>). A source
  is what \<^verbatim>\<open>set_source\<close> stores: a device index or a stream address.
\<close>

type_synonym handle = nat

type_synonym frame = nat

datatype source = Device nat | Stream string

datatype cap_prop = CAP_PROP_FRAME_WIDTH | CAP_PROP_FRAME_HEIGHT | CAP_PROP_FPS

text \<open>The place in the program that called \<^verbatim>\<open>cap.release()\<close>.\<close>

datatype release_path = StartPath | StopPath | LoopPath | ProbePath

text \<open>
  Everything the program does to the outside is recorded, in order of occurrence:
  the calls on capture objects, the start of the worker thread, and the three Qt signals
  of \<^verbatim>\<open>CameraThread\<close>. \<open>FrameReady f\<close> carries the \<^verbatim>\<open>QImage\<close> built from the
  RGB conversion of frame \<open>f\<close>.
\<close>

datatype event =
    Opened handle source
  | OpenFailed handle source
  | PropSet handle cap_prop nat
  | Released handle release_path
  | ThreadStarted
  | FrameReadyRaw frame
  | FrameReady frame
  | ErrorOccurred string

text \<open>
  The environment decides what the program cannot: whether the capture object number
  \<open>h\<close> opens its source, whether a capture supports a property value, and what the
  \<open>k\<close>-th read served by an open capture returns (\<open>Some f\<close> for \<^verbatim>\<open>(True, f)\<close>,
  \<open>None\<close> for \<^verbatim>\<open>(False, None)\<close>).
\<close>

record env =
  open_ok :: "handle \<Rightarrow> source \<Rightarrow> bool"
  set_ok :: "handle \<Rightarrow> cap_prop \<Rightarrow> nat \<Rightarrow> bool"
  read_result :: "nat \<Rightarrow> frame option"

record world =
  next_handle :: handle
  open_handles :: "handle list"
  nreads :: nat
  trace :: "event list"

definition world0 :: world where
  "world0 = \<lparr>next_handle = 0, open_handles = [], nreads = 0, trace = []\<rparr>"

definition emit :: "event \<Rightarrow> world \<Rightarrow> world" where
  "emit ev w = w\<lparr>trace := trace w @ [ev]\<rparr>"

text \<open>\<^verbatim>\<open>cv2.VideoCapture(src)\<close>: a new capture object, open if the environment says so.\<close>

definition VideoCapture :: "env \<Rightarrow> source \<Rightarrow> world \<Rightarrow> handle \<times> world" where
  "VideoCapture e src w =
     (let h = next_handle w in
      if open_ok e h src
      then (h, w\<lparr>next_handle := Suc h, open_handles := open_handles w @ [h],
                 trace := trace w @ [Opened h src]\<rparr>)
      else (h, w\<lparr>next_handle := Suc h, trace := trace w @ [OpenFailed h src]\<rparr>))"

definition isOpened :: "world \<Rightarrow> handle \<Rightarrow> bool" where
  "isOpened w h = (h \<in> set (open_handles w))"

text \<open>\<^verbatim>\<open>cap.release()\<close>: closes the capture; on a capture that is not open it changes nothing.\<close>

definition release :: "release_path \<Rightarrow> handle \<Rightarrow> world \<Rightarrow> world" where
  "release p h w =
     w\<lparr>open_handles := removeAll h (open_handles w), trace := trace w @ [Released h p]\<rparr>"

text \<open>\<^verbatim>\<open>cap.set(prop, value)\<close>: a hint; the result says whether the capture took it.\<close>

definition cap_set :: "env \<Rightarrow> handle \<Rightarrow> cap_prop \<Rightarrow> nat \<Rightarrow> world \<Rightarrow> bool \<times> world" where
  "cap_set e h p v w = (set_ok e h p v, emit (PropSet h p v) w)"

text \<open>\<^verbatim>\<open>cap.read()\<close>: a capture that is not open yields no frame.\<close>

definition cap_read :: "env \<Rightarrow> world \<Rightarrow> handle \<Rightarrow> frame option" where
  "cap_read e w h = (if isOpened w h then read_result e (nreads w) else None)"

text \<open>Capture objects are numbered as they are made, so an open one has a smaller number
  than the next to be made.\<close>

definition world_ok :: "world \<Rightarrow> bool" where
  "world_ok w = list_all (\<lambda>h. h < next_handle w) (open_handles w)"

text \<open>The signals that reach the consumers, in emission order.\<close>

fun is_notification :: "event \<Rightarrow> bool" where
  "is_notification (FrameReadyRaw f) = True"
| "is_notification (FrameReady f) = True"
| "is_notification (ErrorOccurred m) = True"
| "is_notification ev = False"

definition notifications :: "world \<Rightarrow> event list" where
  "notifications w = filter is_notification (trace w)"

section \<open>\<^verbatim>\<open>CameraThread.get_available_cameras\<close>\<close>

text \<open>The body of the loop over \<^verbatim>\<open>range(10)\<close>, and the loop.\<close>

definition probe :: "env \<Rightarrow> nat list \<times> world \<Rightarrow> nat \<Rightarrow> nat list \<times> world" where
  "probe e aw i =
     (let (available_cameras, w) = aw;
          (cap, w1) = VideoCapture e (Device i) w
      in if isOpened w1 cap then (available_cameras @ [i], release ProbePath cap w1)
         else (available_cameras, w1))"

definition get_available_cameras :: "env \<Rightarrow> world \<Rightarrow> nat list \<times> world" where
  "get_available_cameras e w = foldl (probe e) ([], w) [0..<10]"

text \<open>What one probe of index \<open>i\<close> adds to the trace when it is the capture number \<open>h\<close>.\<close>

definition probe_events :: "env \<Rightarrow> handle \<Rightarrow> nat \<Rightarrow> event list" where
  "probe_events e h i =
     (if open_ok e h (Device i) then [Opened h (Device i), Released h ProbePath]
      else [OpenFailed h (Device i)])"

text \<open>The sources of the open attempts recorded in a trace.\<close>

fun attempt_of :: "event \<Rightarrow> source option" where
  "attempt_of (Opened h s) = Some s"
| "attempt_of (OpenFailed h s) = Some s"
| "attempt_of ev = None"

definition attempts :: "event list \<Rightarrow> source list" where
  "attempts t = List.map_filter attempt_of t"

section \<open>\<^verbatim>\<open>ANPRProcessor.generate_random_plate\<close>\<close>

definition plate_letters :: string where
  "plate_letters = ''ABCDEFGHJKLMNPQRSTUVWXYZ''"

definition plate_digits :: string where
  "plate_digits = ''0123456789''"

text \<open>
  \<^verbatim>\<open>np.random.choice(a, k)\<close> draws \<open>k\<close> elements of \<open>a\<close>. The generator is a sequence
  of raw draws, \<open>rng\<close>; the draw at position \<open>pos + i\<close> selects the \<open>i\<close>-th element.
\<close>

definition choice :: "(nat \<Rightarrow> nat) \<Rightarrow> nat \<Rightarrow> 'a list \<Rightarrow> nat \<Rightarrow> 'a list" where
  "choice rng pos a k = map (\<lambda>i. a ! (rng (pos + i) mod length a)) [0..<k]"

definition generate_random_plate :: "string \<Rightarrow> (nat \<Rightarrow> nat) \<Rightarrow> string" where
  "generate_random_plate country_template rng =
     (if country_template = ''EU'' then
        (let letters = choice rng 0 plate_letters 3;
             numbers = choice rng 3 plate_digits 3
         in letters @ ''-'' @ numbers)
      else if country_template = ''US'' then
        (let letters = choice rng 0 plate_letters 3;
             numbers = choice rng 3 plate_digits 4
         in numbers @ letters)
      else
        (let letters = choice rng 0 plate_letters 2;
             numbers = choice rng 2 plate_digits 4
         in letters @ numbers))"

section \<open>\<^verbatim>\<open>CameraThread\<close>\<close>

text \<open>\<^verbatim>\<open>str(self.source)\<close> as used in the error message.\<close>

fun string_of_nat :: "nat \<Rightarrow> string" where
  "string_of_nat n =
     (if n < 10 then [''0123456789'' ! n]
      else string_of_nat (n div 10) @ [''0123456789'' ! (n mod 10)])"

fun str_source :: "source \<Rightarrow> string" where
  "str_source (Device n) = string_of_nat n"
| "str_source (Stream s) = s"

text \<open>
  The state of the \<^verbatim>\<open>QThread\<close> underneath (\<^verbatim>\<open>isRunning()\<close> is \<open>Alive\<close>), and the
  place the worker has reached in \<^verbatim>\<open>run\<close>. \<open>Check r\<close> holds the result of the read
  just made; \<open>Crashed\<close> is an \<^verbatim>\<open>AttributeError\<close> on \<^verbatim>\<open>self.cap\<close> being \<^verbatim>\<open>None\<close>.
\<close>

datatype qthread = NotStarted | Alive | Finished

datatype run_pc =
    LoopTest | Read | Check "frame option" | EmitFrame frame
  | ExitTest | ExitRelease | ExitClear | Returned | Crashed

record camera_thread =
  running :: bool
  cap :: "handle option"
  source :: source
  qthread :: qthread
  pc :: run_pc

definition CameraThread_init :: camera_thread where
  "CameraThread_init =
     \<lparr>running = False, cap = None, source = Device 0, qthread = NotStarted, pc = LoopTest\<rparr>"

definition set_source :: "source \<Rightarrow> camera_thread \<Rightarrow> camera_thread" where
  "set_source src ct = ct\<lparr>source := src\<rparr>"

definition isRunning :: "camera_thread \<Rightarrow> bool" where
  "isRunning ct = (qthread ct = Alive)"

text \<open>\<^verbatim>\<open>QThread.start()\<close>: begins \<^verbatim>\<open>run\<close> in a new thread unless the thread is running.\<close>

definition qthread_start :: "camera_thread \<Rightarrow> world \<Rightarrow> camera_thread \<times> world" where
  "qthread_start ct w =
     (if qthread ct = Alive then (ct, w)
      else (ct\<lparr>qthread := Alive, pc := LoopTest\<rparr>, emit ThreadStarted w))"

text \<open>
  \<^verbatim>\<open>start_streaming\<close>, executed by the caller in one piece. No worker step falls inside
  it when the thread is not running, which is the case for every fresh object.
\<close>

definition start_streaming :: "env \<Rightarrow> camera_thread \<times> world \<Rightarrow> bool \<times> camera_thread \<times> world" where
  "start_streaming e cw =
     (let (ct, w) = cw;
          w1 = (case cap ct of Some old \<Rightarrow> release StartPath old w | None \<Rightarrow> w);
          (h, w2) = VideoCapture e (source ct) w1;
          ct1 = ct\<lparr>cap := Some h\<rparr>
      in if \<not> isOpened w2 h
         then (False, ct1,
               emit (ErrorOccurred (''Failed to open camera source: '' @ str_source (source ct))) w2)
         else (let (r1, w3) = cap_set e h CAP_PROP_FRAME_WIDTH 1280 w2;
                   (r2, w4) = cap_set e h CAP_PROP_FRAME_HEIGHT 720 w3;
                   (r3, w5) = cap_set e h CAP_PROP_FPS 30 w4;
                   ct2 = ct1\<lparr>running := True\<rparr>;
                   (ct3, w6) = qthread_start ct2 w5
               in (True, ct3, w6)))"

text \<open>The release that \<^verbatim>\<open>start_streaming\<close> makes first when a capture object is left.\<close>

definition start_release :: "camera_thread \<Rightarrow> event list" where
  "start_release ct = (case cap ct of Some old \<Rightarrow> [Released old StartPath] | None \<Rightarrow> [])"

text \<open>
  One step of the worker thread in \<^verbatim>\<open>run\<close>: the loop test, the read, the branch on
  its result with the first emission, the second emission, and the three statements
  after the loop. A thread that is not running takes no step. A read returns, and the
  conversion of a frame that was read into a \<^verbatim>\<open>QImage\<close> does not raise.
\<close>

definition run_step :: "env \<Rightarrow> camera_thread \<times> world \<Rightarrow> camera_thread \<times> world" where
  "run_step e cw =
     (let (ct, w) = cw in
      if qthread ct \<noteq> Alive then (ct, w)
      else case pc ct of
        LoopTest \<Rightarrow>
          (if running ct \<and> cap ct \<noteq> None then (ct\<lparr>pc := Read\<rparr>, w)
           else (ct\<lparr>pc := ExitTest\<rparr>, w))
      | Read \<Rightarrow>
          (case cap ct of
             None \<Rightarrow> (ct\<lparr>pc := Crashed, qthread := Finished\<rparr>, w)
           | Some h \<Rightarrow> (ct\<lparr>pc := Check (cap_read e w h)\<rparr>, w\<lparr>nreads := Suc (nreads w)\<rparr>))
      | Check None \<Rightarrow>
          (ct\<lparr>pc := ExitTest\<rparr>, emit (ErrorOccurred ''Failed to read frame from camera.'') w)
      | Check (Some f) \<Rightarrow> (ct\<lparr>pc := EmitFrame f\<rparr>, emit (FrameReadyRaw f) w)
      | EmitFrame f \<Rightarrow> (ct\<lparr>pc := LoopTest\<rparr>, emit (FrameReady f) w)
      | ExitTest \<Rightarrow>
          (if cap ct \<noteq> None then (ct\<lparr>pc := ExitRelease\<rparr>, w)
           else (ct\<lparr>pc := Returned, qthread := Finished\<rparr>, w))
      | ExitRelease \<Rightarrow>
          (case cap ct of
             None \<Rightarrow> (ct\<lparr>pc := Crashed, qthread := Finished\<rparr>, w)
           | Some h \<Rightarrow> (ct\<lparr>pc := ExitClear\<rparr>, release LoopPath h w))
      | ExitClear \<Rightarrow> (ct\<lparr>cap := None, pc := Returned, qthread := Finished\<rparr>, w)
      | Returned \<Rightarrow> (ct, w)
      | Crashed \<Rightarrow> (ct, w))"

text \<open>The worker running on its own for \<open>n\<close> steps.\<close>

fun run_for :: "env \<Rightarrow> nat \<Rightarrow> camera_thread \<times> world \<Rightarrow> camera_thread \<times> world" where
  "run_for e 0 cw = cw"
| "run_for e (Suc n) cw = run_for e n (run_step e cw)"

text \<open>
  The state in which the worker enters the loop after a successful start: the thread
  runs, the flag is up, and \<^verbatim>\<open>self.cap\<close> is an open capture.
\<close>

definition at_loop_entry :: "camera_thread \<Rightarrow> world \<Rightarrow> bool" where
  "at_loop_entry ct w =
     (qthread ct = Alive \<and> pc ct = LoopTest \<and> running ct
      \<and> (case cap ct of None \<Rightarrow> False | Some h \<Rightarrow> isOpened w h))"

text \<open>The two signals emitted for each frame of a list, in the order of the list.\<close>

definition deliveries :: "frame list \<Rightarrow> event list" where
  "deliveries fs = concat (map (\<lambda>f. [FrameReadyRaw f, FrameReady f]) fs)"

text \<open>
  One step of the caller in \<^verbatim>\<open>stop_streaming\<close>: clearing the flag, \<^verbatim>\<open>self.wait()\<close>
  (which lets the caller pass only when the thread is not running), the test of
  \<^verbatim>\<open>self.cap\<close>, the release, the assignment. \<open>StopRaised\<close> is an \<^verbatim>\<open>AttributeError\<close>.
\<close>

datatype stop_pc =
  StopSetFlag | StopWait | StopTestCap | StopRelease | StopClear | StopReturned | StopRaised

definition stop_step :: "stop_pc \<times> camera_thread \<times> world \<Rightarrow> stop_pc \<times> camera_thread \<times> world" where
  "stop_step pcw =
     (let (p, ct, w) = pcw in
      case p of
        StopSetFlag \<Rightarrow> (StopWait, ct\<lparr>running := False\<rparr>, w)
      | StopWait \<Rightarrow> (if qthread ct = Alive then (StopWait, ct, w) else (StopTestCap, ct, w))
      | StopTestCap \<Rightarrow> (if cap ct \<noteq> None then (StopRelease, ct, w) else (StopReturned, ct, w))
      | StopRelease \<Rightarrow>
          (case cap ct of
             None \<Rightarrow> (StopRaised, ct, w)
           | Some h \<Rightarrow> (StopClear, ct, release StopPath h w))
      | StopClear \<Rightarrow> (StopReturned, ct\<lparr>cap := None\<rparr>, w)
      | StopReturned \<Rightarrow> (StopReturned, ct, w)
      | StopRaised \<Rightarrow> (StopRaised, ct, w))"

text \<open>
  \<^verbatim>\<open>stop_streaming\<close> executed by the caller alone. It returns within five steps when
  the thread is not running; \<open>None\<close> says that the caller is still waiting for the worker.
\<close>

definition stop_streaming :: "camera_thread \<times> world \<Rightarrow> (camera_thread \<times> world) option" where
  "stop_streaming cw =
     (let (p, ct, w) = (stop_step ^^ 5) (StopSetFlag, cw)
      in if p = StopReturned then Some (ct, w) else None)"

text \<open>A session is idle when its flag is down and its thread is not running.\<close>

definition is_idle :: "camera_thread \<Rightarrow> bool" where
  "is_idle ct = (\<not> running ct \<and> qthread ct \<noteq> Alive)"

section \<open>One capture session: caller and worker interleaved\<close>

text \<open>
  A schedule says which of the two threads takes the next step. The caller of a session
  has a list of \<^verbatim>\<open>stop_streaming\<close> calls to make, each given by the place it has
  reached; a call that has returned is removed.
\<close>

datatype agent = Caller | Worker

type_synonym session = "stop_pc list \<times> camera_thread \<times> world"

fun caller_step :: "session \<Rightarrow> session" where
  "caller_step ([], ct, w) = ([], ct, w)"
| "caller_step (p # ps, ct, w) =
     (let (p', ct', w') = stop_step (p, ct, w)
      in (if p' = StopReturned then ps else p' # ps, ct', w'))"

fun session_step :: "env \<Rightarrow> session \<Rightarrow> agent \<Rightarrow> session" where
  "session_step e s Caller = caller_step s"
| "session_step e (ps, ct, w) Worker = (let (ct', w') = run_step e (ct, w) in (ps, ct', w'))"

definition session_exec :: "env \<Rightarrow> agent list \<Rightarrow> session \<Rightarrow> session" where
  "session_exec e sch s = foldl (session_step e) s sch"

text \<open>The calls of \<^verbatim>\<open>release\<close> recorded in a trace, with their paths.\<close>

fun release_of :: "event \<Rightarrow> (handle \<times> release_path) option" where
  "release_of (Released h p) = Some (h, p)"
| "release_of ev = None"

definition releases :: "world \<Rightarrow> (handle \<times> release_path) list" where
  "releases w = List.map_filter release_of (trace w)"

section \<open>\<^verbatim>\<open>ANPRProcessor\<close>: sequences of \<^verbatim>\<open>start_stream\<close> and \<^verbatim>\<open>stop_stream\<close>\<close>

text \<open>
  The user interface thread makes one call after the other. Its places: between calls;
  in \<^verbatim>\<open>start_stream\<close> at the test of the old thread, inside \<^verbatim>\<open>stop_streaming\<close> of the
  old thread, at \<^verbatim>\<open>self.camera_thread = None\<close>, at the creation and start of the new
  thread; in \<^verbatim>\<open>stop_stream\<close> likewise. An exception inside \<^verbatim>\<open>start_stream\<close> is caught
  there (the call returns); inside \<^verbatim>\<open>stop_stream\<close> it is not (\<open>UiAborted\<close>).
  \<^verbatim>\<open>start_stream\<close> makes a new \<^verbatim>\<open>CameraThread\<close> for every start and does not look
  at what \<^verbatim>\<open>start_streaming\<close> returns; an old thread object that is replaced is not
  running and takes no further step.
\<close>

datatype call = StartStream source | StopStream

datatype ui_pc =
    UiIdle
  | StartIf source | StartStopping source stop_pc | StartDrop source | StartNew source
  | StopIf | StopStopping stop_pc | StopDrop
  | UiAborted

record anpr =
  todo :: "call list"
  ui :: ui_pc
  camera_thread :: "camera_thread option"
  outside :: world

definition anpr_init :: "call list \<Rightarrow> anpr" where
  "anpr_init calls = \<lparr>todo = calls, ui = UiIdle, camera_thread = None, outside = world0\<rparr>"

definition ui_step :: "env \<Rightarrow> anpr \<Rightarrow> anpr" where
  "ui_step e s =
     (case ui s of
        UiIdle \<Rightarrow>
          (case todo s of
             [] \<Rightarrow> s
           | StartStream src # cs \<Rightarrow> s\<lparr>todo := cs, ui := StartIf src\<rparr>
           | StopStream # cs \<Rightarrow> s\<lparr>todo := cs, ui := StopIf\<rparr>)
      | StartIf src \<Rightarrow>
          (case camera_thread s of
             None \<Rightarrow> s\<lparr>ui := StartNew src\<rparr>
           | Some ct \<Rightarrow>
               if isRunning ct then s\<lparr>ui := StartStopping src StopSetFlag\<rparr>
               else s\<lparr>ui := StartNew src\<rparr>)
      | StartStopping src p \<Rightarrow>
          (case camera_thread s of
             None \<Rightarrow> s\<lparr>ui := UiIdle\<rparr>
           | Some ct \<Rightarrow>
               (let (p', ct', w') = stop_step (p, ct, outside s);
                    s' = s\<lparr>camera_thread := Some ct', outside := w'\<rparr>
                in if p' = StopReturned then s'\<lparr>ui := StartDrop src\<rparr>
                   else if p' = StopRaised then s'\<lparr>ui := UiIdle\<rparr>
                   else s'\<lparr>ui := StartStopping src p'\<rparr>))
      | StartDrop src \<Rightarrow> s\<lparr>camera_thread := None, ui := StartNew src\<rparr>
      | StartNew src \<Rightarrow>
          (let ct = set_source src CameraThread_init;
               (ok, ct', w') = start_streaming e (ct, outside s)
           in s\<lparr>camera_thread := Some ct', outside := w', ui := UiIdle\<rparr>)
      | StopIf \<Rightarrow>
          (case camera_thread s of
             None \<Rightarrow> s\<lparr>ui := UiIdle\<rparr>
           | Some ct \<Rightarrow>
               if isRunning ct then s\<lparr>ui := StopStopping StopSetFlag\<rparr>
               else s\<lparr>ui := UiIdle\<rparr>)
      | StopStopping p \<Rightarrow>
          (case camera_thread s of
             None \<Rightarrow> s\<lparr>ui := UiAborted\<rparr>
           | Some ct \<Rightarrow>
               (let (p', ct', w') = stop_step (p, ct, outside s);
                    s' = s\<lparr>camera_thread := Some ct', outside := w'\<rparr>
                in if p' = StopReturned then s'\<lparr>ui := StopDrop\<rparr>
                   else if p' = StopRaised then s'\<lparr>ui := UiAborted\<rparr>
                   else s'\<lparr>ui := StopStopping p'\<rparr>))
      | StopDrop \<Rightarrow> s\<lparr>camera_thread := None, ui := UiIdle\<rparr>
      | UiAborted \<Rightarrow> s)"

definition worker_step :: "env \<Rightarrow> anpr \<Rightarrow> anpr" where
  "worker_step e s =
     (case camera_thread s of
        None \<Rightarrow> s
      | Some ct \<Rightarrow>
          (let (ct', w') = run_step e (ct, outside s)
           in s\<lparr>camera_thread := Some ct', outside := w'\<rparr>))"

fun anpr_step :: "env \<Rightarrow> anpr \<Rightarrow> agent \<Rightarrow> anpr" where
  "anpr_step e s Caller = ui_step e s"
| "anpr_step e s Worker = worker_step e s"

definition anpr_exec :: "env \<Rightarrow> agent list \<Rightarrow> anpr \<Rightarrow> anpr" where
  "anpr_exec e sch s = foldl (anpr_step e) s sch"

section \<open>Concrete environments\<close>

text \<open>Only the devices 0 and 2 open, and no read succeeds.\<close>

definition env_two :: env where
  "env_two = \<lparr>open_ok = (\<lambda>h s. s = Device 0 \<or> s = Device 2),
              set_ok = (\<lambda>h p v. True), read_result = (\<lambda>k. None)\<rparr>"

text \<open>No camera is attached.\<close>

definition env_none :: env where
  "env_none = \<lparr>open_ok = (\<lambda>h s. False), set_ok = (\<lambda>h p v. True), read_result = (\<lambda>k. None)\<rparr>"

text \<open>Every source opens, no property is supported, and the reads deliver the frames
  10, 11, 12, 13, 14 and then fail.\<close>

definition env_five :: env where
  "env_five = \<lparr>open_ok = (\<lambda>h s. True), set_ok = (\<lambda>h p v. False),
               read_result = (\<lambda>k. if k < 5 then Some (10 + k) else None)\<rparr>"

section \<open>Invariants and measures of one session\<close>

text \<open>
  What holds of the worker of a session that was started once and got the capture \<open>h\<close>:
  until the release after the loop the capture is open and no release was called; from
  then on it is closed and was released once, by the loop's exit.
\<close>

definition worker_ok :: "handle \<Rightarrow> camera_thread \<Rightarrow> world \<Rightarrow> bool" where
  "worker_ok h ct w =
     (case qthread ct of
        NotStarted \<Rightarrow> False
      | Finished \<Rightarrow>
          pc ct = Returned \<and> cap ct = None \<and> open_handles w = [] \<and> releases w = [(h, LoopPath)]
      | Alive \<Rightarrow>
          (case pc ct of
             ExitClear \<Rightarrow> cap ct = Some h \<and> open_handles w = [] \<and> releases w = [(h, LoopPath)]
           | Returned \<Rightarrow> False
           | Crashed \<Rightarrow> False
           | _ \<Rightarrow> cap ct = Some h \<and> open_handles w = [h] \<and> releases w = []))"

text \<open>
  What holds of the caller: only the first pending call has begun; past the first
  statement the flag is down, and past the wait the thread has finished.
\<close>

definition caller_ok :: "stop_pc list \<Rightarrow> camera_thread \<Rightarrow> bool" where
  "caller_ok ps ct =
     (case ps of
        [] \<Rightarrow> True
      | p # qs \<Rightarrow>
          list_all (\<lambda>q. q = StopSetFlag) qs
          \<and> (p = StopSetFlag \<or> (p = StopWait \<and> \<not> running ct)
              \<or> (p = StopTestCap \<and> \<not> running ct \<and> qthread ct = Finished)))"

definition started_inv :: "handle \<Rightarrow> session \<Rightarrow> bool" where
  "started_inv h s = (case s of (ps, ct, w) \<Rightarrow> worker_ok h ct w \<and> caller_ok ps ct)"

text \<open>The number of steps the worker can still take once the flag is down.\<close>

fun pc_rank :: "run_pc \<Rightarrow> nat" where
  "pc_rank Read = 7"
| "pc_rank (Check (Some f)) = 6"
| "pc_rank (EmitFrame f) = 5"
| "pc_rank LoopTest = 4"
| "pc_rank (Check None) = 4"
| "pc_rank ExitTest = 3"
| "pc_rank ExitRelease = 2"
| "pc_rank ExitClear = 1"
| "pc_rank Returned = 0"
| "pc_rank Crashed = 0"

definition work_left :: "camera_thread \<Rightarrow> nat" where
  "work_left ct = (if qthread ct = Alive then pc_rank (pc ct) else 0)"

text \<open>The number of steps the caller still has to take.\<close>

fun call_left :: "stop_pc list \<Rightarrow> nat" where
  "call_left [] = 0"
| "call_left (p # qs) =
     (case p of StopSetFlag \<Rightarrow> 3 | StopWait \<Rightarrow> 2 | StopTestCap \<Rightarrow> 1 | _ \<Rightarrow> 0) + 3 * length qs"

text \<open>The frames delivered by \<^verbatim>\<open>frame_ready_raw\<close>.\<close>

fun raw_of :: "event \<Rightarrow> frame option" where
  "raw_of (FrameReadyRaw f) = Some f"
| "raw_of ev = None"

definition raw_frames :: "world \<Rightarrow> frame list" where
  "raw_frames w = List.map_filter raw_of (trace w)"

text \<open>Whether the worker is past the loop test and before its read, and whether it may
  still emit the frame of the current iteration.\<close>

definition reads_pending :: "camera_thread \<Rightarrow> nat" where
  "reads_pending ct = (if qthread ct = Alive \<and> pc ct = Read then 1 else 0)"

definition frames_pending :: "camera_thread \<Rightarrow> nat" where
  "frames_pending ct =
     (if qthread ct = Alive \<and> (case pc ct of Read \<Rightarrow> True | Check (Some f) \<Rightarrow> True | _ \<Rightarrow> False)
      then 1 else 0)"

definition flag_down :: "session \<Rightarrow> bool" where
  "flag_down s = (case s of (ps, ct, w) \<Rightarrow> \<not> running ct)"

definition the_thread :: "session \<Rightarrow> camera_thread" where
  "the_thread s = fst (snd s)"

definition the_world :: "session \<Rightarrow> world" where
  "the_world s = snd (snd s)"

text \<open>Once a stop has been called, an empty list of calls means the flag is down.\<close>

definition stop_called :: "session \<Rightarrow> bool" where
  "stop_called s = (fst s = [] \<longrightarrow> flag_down s \<and> qthread (the_thread s) = Finished)"

text \<open>Every source opens and every read delivers a frame.\<close>

definition env_live :: env where
  "env_live = \<lparr>open_ok = (\<lambda>h s. True), set_ok = (\<lambda>h p v. True), read_result = (\<lambda>k. Some k)\<rparr>"

text \<open>The session right after a successful start on device 0, and a schedule.\<close>

definition live_thread :: camera_thread where
  "live_thread = \<lparr>running = True, cap = Some 0, source = Device 0, qthread = Alive, pc = LoopTest\<rparr>"

definition live_world :: world where
  "live_world = \<lparr>next_handle = 1, open_handles = [0], nreads = 0,
     trace = [Opened 0 (Device 0), PropSet 0 CAP_PROP_FRAME_WIDTH 1280,
              PropSet 0 CAP_PROP_FRAME_HEIGHT 720, PropSet 0 CAP_PROP_FPS 30, ThreadStarted]\<rparr>"

definition sched1 :: "agent list" where
  "sched1 = [Worker, Worker, Worker, Worker, Worker, Worker, Caller, Caller, Worker, Worker, Caller,
             Worker, Worker, Worker, Worker, Worker, Caller, Caller, Worker]"

text \<open>
  A session after a start on device 0 with no camera attached, and a session whose loop
  has ended on the failure of the sixth read.
\<close>

definition failed_thread :: camera_thread where
  "failed_thread =
     \<lparr>running = False, cap = Some 0, source = Device 0, qthread = NotStarted, pc = LoopTest\<rparr>"

definition failed_world :: world where
  "failed_world = \<lparr>next_handle = 1, open_handles = [], nreads = 0,
     trace = [OpenFailed 0 (Device 0), ErrorOccurred ''Failed to open camera source: 0'']\<rparr>"

definition ended_thread :: camera_thread where
  "ended_thread =
     \<lparr>running = True, cap = None, source = Device 0, qthread = Finished, pc = Returned\<rparr>"

definition ended_world :: world where
  "ended_world = \<lparr>next_handle = 1, open_handles = [], nreads = 6,
     trace = [Opened 0 (Device 0), PropSet 0 CAP_PROP_FRAME_WIDTH 1280,
              PropSet 0 CAP_PROP_FRAME_HEIGHT 720, PropSet 0 CAP_PROP_FPS 30, ThreadStarted,
              FrameReadyRaw 10, FrameReady 10, FrameReadyRaw 11, FrameReady 11,
              FrameReadyRaw 12, FrameReady 12, FrameReadyRaw 13, FrameReady 13,
              FrameReadyRaw 14, FrameReady 14,
              ErrorOccurred ''Failed to read frame from camera.'', Released 0 LoopPath]\<rparr>"

section \<open>Invariant of the processor\<close>

text \<open>
  What holds of the current thread object and the captures at any moment: a capture is
  open only while the thread runs and has not yet released it, and then it is the one in
  \<^verbatim>\<open>self.cap\<close>.
\<close>

definition sess_inv :: "camera_thread \<Rightarrow> world \<Rightarrow> bool" where
  "sess_inv ct w =
     (case qthread ct of
        NotStarted \<Rightarrow> open_handles w = []
      | Finished \<Rightarrow> pc ct = Returned \<and> cap ct = None \<and> open_handles w = []
      | Alive \<Rightarrow>
          (case pc ct of
             ExitClear \<Rightarrow> cap ct \<noteq> None \<and> open_handles w = []
           | Returned \<Rightarrow> False
           | Crashed \<Rightarrow> False
           | _ \<Rightarrow> (case cap ct of None \<Rightarrow> False | Some h \<Rightarrow> open_handles w = [h])))"

text \<open>Where the caller can be inside \<^verbatim>\<open>stop_streaming\<close>, given the state of the thread.\<close>

definition stop_ok :: "stop_pc \<Rightarrow> camera_thread \<Rightarrow> bool" where
  "stop_ok p ct =
     (case p of
        StopSetFlag \<Rightarrow> True
      | StopWait \<Rightarrow> True
      | StopTestCap \<Rightarrow> qthread ct \<noteq> Alive
      | StopRelease \<Rightarrow> qthread ct \<noteq> Alive \<and> cap ct \<noteq> None
      | StopClear \<Rightarrow> qthread ct \<noteq> Alive
      | StopReturned \<Rightarrow> False
      | StopRaised \<Rightarrow> False)"

text \<open>Where the user interface thread can be, given the state of the current thread object,
  and when there is none.\<close>

definition ui_ok :: "ui_pc \<Rightarrow> camera_thread \<Rightarrow> bool" where
  "ui_ok u ct =
     (case u of
        StartStopping src p \<Rightarrow> stop_ok p ct
      | StopStopping p \<Rightarrow> stop_ok p ct
      | StartDrop src \<Rightarrow> qthread ct \<noteq> Alive
      | StartNew src \<Rightarrow> qthread ct \<noteq> Alive
      | StopDrop \<Rightarrow> qthread ct \<noteq> Alive
      | UiAborted \<Rightarrow> False
      | _ \<Rightarrow> True)"

definition ui_ok_none :: "ui_pc \<Rightarrow> bool" where
  "ui_ok_none u =
     (case u of
        StartStopping src p \<Rightarrow> False
      | StopStopping p \<Rightarrow> False
      | UiAborted \<Rightarrow> False
      | _ \<Rightarrow> True)"

definition anpr_inv :: "anpr \<Rightarrow> bool" where
  "anpr_inv s =
     (case camera_thread s of
        None \<Rightarrow> open_handles (outside s) = [] \<and> ui_ok_none (ui s)
      | Some ct \<Rightarrow> sess_inv ct (outside s) \<and> ui_ok (ui s) ct)"

text \<open>Two starts in a row, on device 0 and then on device 1, and a schedule.\<close>

definition two_starts :: "call list" where
  "two_starts = [StartStream (Device 0), StartStream (Device 1)]"

definition sched2 :: "agent list" where
  "sched2 = [Caller, Caller, Caller, Worker, Worker, Worker, Worker, Worker, Caller, Caller, Caller,
             Worker, Caller, Worker, Worker, Worker, Worker, Worker, Worker, Caller, Caller, Caller,
             Caller, Caller, Worker, Worker]"

section \<open>Device enumeration\<close>

lemma probe_loop:
  "world_ok w \<Longrightarrow>
   foldl (probe e) (acc, w) [0..<n] =
     (acc @ filter (\<lambda>i. open_ok e (next_handle w + i) (Device i)) [0..<n],
      w\<lparr>next_handle := next_handle w + n,
        trace := trace w @ concat (map (\<lambda>i. probe_events e (next_handle w + i) i) [0..<n])\<rparr>)"
proof (induction n)
  case 0
  then show ?case by simp
next
  case (Suc n)
  have fresh: "next_handle w + n \<notin> set (open_handles w)"
    using Suc.prems by (auto simp: world_ok_def list_all_iff)
  show ?case
    using Suc fresh
    by (simp add: probe_def VideoCapture_def isOpened_def release_def probe_events_def Let_def)
qed

lemma attempts_append: "attempts (xs @ ys) = attempts xs @ attempts ys"
  by (simp add: attempts_def map_filter_def)

lemma attempts_probe_events: "attempts (probe_events e h i) = [Device i]"
  by (simp add: attempts_def map_filter_def probe_events_def)

lemma attempts_probes:
  "attempts (concat (map (\<lambda>i. probe_events e (f i) i) [0..<n])) = map Device [0..<n]"
  by (induction n) (simp_all add: attempts_append attempts_probe_events, simp add: attempts_def map_filter_def)

text \<open>
  C6. The scan probes exactly the device indices 0, 1, ..., 9, in this order, and
  returns exactly the probed indices whose open succeeded, in ascending order; when no
  device opens, it returns the empty list.
\<close>

theorem get_available_cameras_result:
  assumes "world_ok w"
      and "get_available_cameras e w = (cams, w')"
  shows "\<exists>new. trace w' = trace w @ new
           \<and> attempts new = map Device [0..<10]
           \<and> cams = filter (\<lambda>i. Opened (next_handle w + i) (Device i) \<in> set new) [0..<10]
           \<and> sorted cams \<and> distinct cams \<and> set cams \<subseteq> {0..9}
           \<and> ((\<forall>i<10. \<not> open_ok e (next_handle w + i) (Device i)) \<longrightarrow> cams = [])"
proof -
  let ?ok = "\<lambda>i. open_ok e (next_handle w + i) (Device i)"
  let ?new = "concat (map (\<lambda>i. probe_events e (next_handle w + i) i) [0..<10])"
  have res: "cams = filter ?ok [0..<10]" and tr: "trace w' = trace w @ ?new"
    using assms probe_loop [of w e "[]" 10] by (auto simp: get_available_cameras_def)
  have mem: "Opened (next_handle w + i) (Device i) \<in> set ?new \<longleftrightarrow> ?ok i" if "i < 10" for i
    using that by (auto simp: probe_events_def split: if_splits)
  have "filter ?ok [0..<10] = filter (\<lambda>i. Opened (next_handle w + i) (Device i) \<in> set ?new) [0..<10]"
    by (rule filter_cong) (use mem in auto)
  moreover have "attempts ?new = map Device [0..<10]"
    by (rule attempts_probes)
  moreover have "sorted (filter ?ok [0..<10])" "distinct (filter ?ok [0..<10])"
    by (simp_all add: sorted_wrt_filter)
  moreover have "set (filter ?ok [0..<10]) \<subseteq> {0..9}"
    by auto
  moreover have "(\<forall>i<10. \<not> ?ok i) \<longrightarrow> filter ?ok [0..<10] = []"
    by (auto simp: filter_empty_conv)
  ultimately show ?thesis
    using res tr by blast
qed

theorem get_available_cameras_result_witness:
  "world_ok world0 \<and> get_available_cameras env_two world0 \<noteq> ([1], world0)
   \<and> fst (get_available_cameras env_two world0) = [0, 2]
   \<and> sorted (fst (get_available_cameras env_two world0))"
proof -
  have ok: "world_ok world0"
    by (simp add: world_ok_def world0_def)
  obtain cams w' where run: "get_available_cameras env_two world0 = (cams, w')"
    by (cases "get_available_cameras env_two world0")
  have val: "fst (get_available_cameras env_two world0) = [0, 2]"
    by (simp add: get_available_cameras_def env_two_def world0_def probe_def VideoCapture_def
        isOpened_def release_def upt_rec)
  from get_available_cameras_result [OF ok run] have "sorted cams" by blast
  with ok run val show ?thesis by auto
qed

text \<open>
  C7. A scan leaves no capture open that it opened: every probe whose open succeeded is
  followed by its release before the next probe, the open captures after the scan are
  those before it, and a probe whose open failed holds no capture. This holds for every
  outcome of the ten probes.
\<close>

theorem get_available_cameras_closes_probes:
  assumes "world_ok w"
      and "get_available_cameras e w = (cams, w')"
  shows "open_handles w' = open_handles w \<and> world_ok w'
         \<and> (\<exists>new. trace w' = trace w @ new
              \<and> new = concat (map (\<lambda>i. probe_events e (next_handle w + i) i) [0..<10])
              \<and> (\<forall>h s. Opened h s \<in> set new \<longrightarrow>
                    Released h ProbePath \<in> set new \<and> \<not> isOpened w' h))"
proof -
  let ?new = "concat (map (\<lambda>i. probe_events e (next_handle w + i) i) [0..<10])"
  have w': "w' = w\<lparr>next_handle := next_handle w + 10, trace := trace w @ ?new\<rparr>"
    using assms probe_loop [of w e "[]" 10] by (simp add: get_available_cameras_def)
  have closed: "Released h ProbePath \<in> set ?new \<and> \<not> isOpened w' h" if "Opened h s \<in> set ?new" for h s
  proof -
    from that obtain i where i: "i < 10" "Opened h s \<in> set (probe_events e (next_handle w + i) i)"
      by auto
    then have h: "h = next_handle w + i" and "Released h ProbePath \<in> set (probe_events e (next_handle w + i) i)"
      by (auto simp: probe_events_def split: if_splits)
    then have "Released h ProbePath \<in> set ?new"
      using i(1) by auto
    moreover have "h \<notin> set (open_handles w)"
      using assms(1) h by (auto simp: world_ok_def list_all_iff)
    ultimately show ?thesis
      by (simp add: w' isOpened_def)
  qed
  have "world_ok w'"
    using assms(1) by (auto simp: w' world_ok_def list_all_iff)
  then show ?thesis
    using w' closed by auto
qed

theorem get_available_cameras_closes_probes_witness:
  "world_ok world0 \<and> open_handles (snd (get_available_cameras env_two world0)) = []
   \<and> Opened 2 (Device 2) \<in> set (trace (snd (get_available_cameras env_two world0)))
   \<and> OpenFailed 1 (Device 1) \<in> set (trace (snd (get_available_cameras env_two world0)))"
proof -
  have ok: "world_ok world0"
    by (simp add: world_ok_def world0_def)
  obtain cams w' where run: "get_available_cameras env_two world0 = (cams, w')"
    by (cases "get_available_cameras env_two world0")
  have val: "Opened 2 (Device 2) \<in> set (trace (snd (get_available_cameras env_two world0)))
    \<and> OpenFailed 1 (Device 1) \<in> set (trace (snd (get_available_cameras env_two world0)))"
    by (simp add: get_available_cameras_def env_two_def world0_def probe_def VideoCapture_def
        isOpened_def release_def upt_rec)
  from get_available_cameras_closes_probes [OF ok run] have "open_handles w' = open_handles world0"
    by blast
  with ok run val show ?thesis by (simp add: world0_def)
qed

section \<open>Simulated plates\<close>

lemma length_choice: "length (choice rng pos a k) = k"
  by (simp add: choice_def)

lemma set_choice: "a \<noteq> [] \<Longrightarrow> set (choice rng pos a k) \<subseteq> set a"
  by (auto simp: choice_def)

lemma plate_letters_alphabet:
  "length plate_letters = 24 \<and> distinct plate_letters
   \<and> set plate_letters = set ''ABCDEFGHIJKLMNOPQRSTUVWXYZ'' - {CHR ''I'', CHR ''O''}"
  by (auto simp: plate_letters_def)

text \<open>
  C10. Whatever the template and the random draws: with \<open>''EU''\<close> the plate is three
  letters of the alphabet without I and O, a hyphen and three digits (seven characters);
  with \<open>''US''\<close> four digits and three such letters (seven characters); with any other
  template two such letters and four digits (six characters).
\<close>

theorem generate_random_plate_shape:
  "(t = ''EU'' \<longrightarrow>
      length (generate_random_plate t rng) = 7
      \<and> set (take 3 (generate_random_plate t rng)) \<subseteq> set plate_letters
      \<and> generate_random_plate t rng ! 3 = CHR ''-''
      \<and> set (drop 4 (generate_random_plate t rng)) \<subseteq> set plate_digits)
   \<and> (t = ''US'' \<longrightarrow>
      length (generate_random_plate t rng) = 7
      \<and> set (take 4 (generate_random_plate t rng)) \<subseteq> set plate_digits
      \<and> set (drop 4 (generate_random_plate t rng)) \<subseteq> set plate_letters)
   \<and> (t \<noteq> ''EU'' \<and> t \<noteq> ''US'' \<longrightarrow>
      length (generate_random_plate t rng) = 6
      \<and> set (take 2 (generate_random_plate t rng)) \<subseteq> set plate_letters
      \<and> set (drop 2 (generate_random_plate t rng)) \<subseteq> set plate_digits)
   \<and> length plate_letters = 24 \<and> distinct plate_letters
   \<and> set plate_letters = set ''ABCDEFGHIJKLMNOPQRSTUVWXYZ'' - {CHR ''I'', CHR ''O''}
   \<and> set plate_digits = set ''0123456789''"
proof -
  have l: "set (choice rng p plate_letters k) \<subseteq> set plate_letters" for p k
    by (rule set_choice) (simp add: plate_letters_def)
  have d: "set (choice rng p plate_digits k) \<subseteq> set plate_digits" for p k
    by (rule set_choice) (simp add: plate_digits_def)
  have eu: "t = ''EU'' \<longrightarrow>
      length (generate_random_plate t rng) = 7
      \<and> set (take 3 (generate_random_plate t rng)) \<subseteq> set plate_letters
      \<and> generate_random_plate t rng ! 3 = CHR ''-''
      \<and> set (drop 4 (generate_random_plate t rng)) \<subseteq> set plate_digits"
    using l d by (simp add: generate_random_plate_def Let_def length_choice nth_append)
  have us: "t = ''US'' \<longrightarrow>
      length (generate_random_plate t rng) = 7
      \<and> set (take 4 (generate_random_plate t rng)) \<subseteq> set plate_digits
      \<and> set (drop 4 (generate_random_plate t rng)) \<subseteq> set plate_letters"
    using l d by (simp add: generate_random_plate_def Let_def length_choice)
  have other: "t \<noteq> ''EU'' \<and> t \<noteq> ''US'' \<longrightarrow>
      length (generate_random_plate t rng) = 6
      \<and> set (take 2 (generate_random_plate t rng)) \<subseteq> set plate_letters
      \<and> set (drop 2 (generate_random_plate t rng)) \<subseteq> set plate_digits"
    using l d by (simp add: generate_random_plate_def Let_def length_choice)
  from eu us other plate_letters_alphabet show ?thesis
    by (simp add: plate_digits_def)
qed

theorem generate_random_plate_shape_witness:
  "generate_random_plate ''EU'' (\<lambda>i. 7 * i + 3) = ''DLT-418''
   \<and> generate_random_plate ''US'' (\<lambda>i. 7 * i + 3) = ''4185DLT''
   \<and> generate_random_plate ''JP'' (\<lambda>i. 7 * i + 3) = ''DL7418''
   \<and> length (generate_random_plate ''EU'' (\<lambda>i. 7 * i + 3)) = 7
   \<and> length (generate_random_plate ''US'' (\<lambda>i. 7 * i + 3)) = 7
   \<and> length (generate_random_plate ''JP'' (\<lambda>i. 7 * i + 3)) = 6"
  using generate_random_plate_shape [of "''EU''" "\<lambda>i. 7 * i + 3"]
    generate_random_plate_shape [of "''US''" "\<lambda>i. 7 * i + 3"]
    generate_random_plate_shape [of "''JP''" "\<lambda>i. 7 * i + 3"]
  by (simp add: generate_random_plate_def choice_def plate_letters_def plate_digits_def upt_rec)

section \<open>Starting a session\<close>

lemma fresh_not_open: "world_ok w \<Longrightarrow> next_handle w \<notin> set (open_handles w)"
  by (auto simp: world_ok_def list_all_iff)

lemma fresh_not_open_removeAll: "world_ok w \<Longrightarrow> next_handle w \<notin> set (removeAll x (open_handles w))"
  by (auto simp: world_ok_def list_all_iff)


lemma start_streaming_fails:
  assumes "world_ok w" and "\<not> open_ok e (next_handle w) (source ct)"
  shows "start_streaming e (ct, w) =
    (False, ct\<lparr>cap := Some (next_handle w)\<rparr>,
     w\<lparr>next_handle := Suc (next_handle w),
       open_handles := (case cap ct of Some old \<Rightarrow> removeAll old (open_handles w) | None \<Rightarrow> open_handles w),
       trace := trace w @ start_release ct @
         [OpenFailed (next_handle w) (source ct),
          ErrorOccurred (''Failed to open camera source: '' @ str_source (source ct))]\<rparr>)"
  using assms fresh_not_open [OF assms(1)] fresh_not_open_removeAll [OF assms(1)]
  by (cases "cap ct")
     (simp_all add: start_streaming_def VideoCapture_def isOpened_def release_def emit_def
       start_release_def Let_def)

lemma start_streaming_succeeds:
  assumes "open_ok e (next_handle w) (source ct)"
  shows "start_streaming e (ct, w) =
    (True, ct\<lparr>cap := Some (next_handle w), running := True, qthread := Alive,
             pc := (if qthread ct = Alive then pc ct else LoopTest)\<rparr>,
     w\<lparr>next_handle := Suc (next_handle w),
       open_handles := (case cap ct of Some old \<Rightarrow> removeAll old (open_handles w) | None \<Rightarrow> open_handles w)
          @ [next_handle w],
       trace := trace w @ start_release ct @
         [Opened (next_handle w) (source ct),
          PropSet (next_handle w) CAP_PROP_FRAME_WIDTH 1280,
          PropSet (next_handle w) CAP_PROP_FRAME_HEIGHT 720,
          PropSet (next_handle w) CAP_PROP_FPS 30]
         @ (if qthread ct = Alive then [] else [ThreadStarted])\<rparr>)"
  using assms
  by (cases "cap ct")
     (simp_all add: start_streaming_def VideoCapture_def isOpened_def release_def emit_def
       start_release_def cap_set_def qthread_start_def Let_def)


text \<open>
  With no camera attached, a fresh session asked to start returns \<open>False\<close> and has emitted
  \<^verbatim>\<open>error_occurred\<close> once: the open failure does reach the error consumer.
\<close>

theorem start_streaming_open_failure_counterexample:
  "start_streaming env_none (CameraThread_init, world0) =
     (False, CameraThread_init\<lparr>cap := Some 0\<rparr>,
      world0\<lparr>next_handle := 1,
             trace := [OpenFailed 0 (Device 0), ErrorOccurred ''Failed to open camera source: 0'']\<rparr>)
   \<and> notifications (snd (snd (start_streaming env_none (CameraThread_init, world0)))) =
       [ErrorOccurred ''Failed to open camera source: 0'']"
  by (simp add: start_streaming_def env_none_def CameraThread_init_def world0_def VideoCapture_def
      isOpened_def emit_def notifications_def)

text \<open>
  C1 (as the code has it). When the source does not open, \<^verbatim>\<open>start_streaming\<close> returns
  \<open>False\<close>, leaves the flag, the thread and the worker's place as they were (an idle
  session stays idle), starts no thread, sets no property, leaves no capture open, and
  emits exactly one \<^verbatim>\<open>error_occurred\<close> with the text
  \<^verbatim>\<open>Failed to open camera source: <source>\<close>.
\<close>

theorem start_streaming_open_failure:
  assumes "world_ok w"
      and "\<not> open_ok e (next_handle w) (source ct)"
      and "start_streaming e (ct, w) = (ok, ct', w')"
  shows "\<not> ok
     \<and> running ct' = running ct \<and> qthread ct' = qthread ct \<and> pc ct' = pc ct
     \<and> (is_idle ct \<longrightarrow> is_idle ct')
     \<and> trace w' = trace w @ start_release ct @
         [OpenFailed (next_handle w) (source ct),
          ErrorOccurred (''Failed to open camera source: '' @ str_source (source ct))]
     \<and> notifications w' = notifications w @
         [ErrorOccurred (''Failed to open camera source: '' @ str_source (source ct))]
     \<and> \<not> isOpened w' (next_handle w)
     \<and> set (open_handles w') \<subseteq> set (open_handles w)"
proof -
  have n: "filter is_notification (start_release ct) = []"
    by (simp add: start_release_def split: option.splits)
  have "next_handle w \<notin> set (open_handles w)"
    using assms(1) by (rule fresh_not_open)
  then show ?thesis
    using assms(3) n unfolding start_streaming_fails [OF assms(1,2)]
    by (auto simp: is_idle_def notifications_def isOpened_def split: option.splits)
qed

theorem start_streaming_open_failure_witness:
  "world_ok world0 \<and> \<not> open_ok env_none (next_handle world0) (source CameraThread_init)
   \<and> fst (start_streaming env_none (CameraThread_init, world0)) = False
   \<and> is_idle (fst (snd (start_streaming env_none (CameraThread_init, world0))))
   \<and> notifications (snd (snd (start_streaming env_none (CameraThread_init, world0)))) =
       [ErrorOccurred ''Failed to open camera source: 0'']"
proof -
  have ok: "world_ok world0"
    by (simp add: world_ok_def world0_def)
  have no: "\<not> open_ok env_none (next_handle world0) (source CameraThread_init)"
    by (simp add: env_none_def)
  obtain r ct' w' where run: "start_streaming env_none (CameraThread_init, world0) = (r, ct', w')"
    by (cases "start_streaming env_none (CameraThread_init, world0)")
  have idle: "is_idle CameraThread_init"
    by (simp add: is_idle_def CameraThread_init_def)
  from start_streaming_open_failure [OF ok no run] idle
  have "\<not> r" "is_idle ct'"
    "notifications w' = notifications world0 @
       [ErrorOccurred (''Failed to open camera source: '' @ str_source (source CameraThread_init))]"
    by blast+
  then show ?thesis
    using ok no run by (simp add: notifications_def world0_def CameraThread_init_def)
qed

text \<open>
  C9. On a session whose thread is not running, \<^verbatim>\<open>start_streaming\<close> succeeds exactly
  when the source opens, whatever the capture answers to the property settings. On
  success it sets width 1280, height 720 and 30 frames per second on the new capture, in
  this order, and only then starts the thread, which begins at the loop test. On failure
  it sets no property and starts no thread.
\<close>

theorem start_streaming_applies_hints:
  assumes "world_ok w"
      and "qthread ct \<noteq> Alive"
      and "start_streaming e (ct, w) = (ok, ct', w')"
  shows "ok = open_ok e (next_handle w) (source ct)
     \<and> (\<forall>g. start_streaming (e\<lparr>set_ok := g\<rparr>) (ct, w) = (ok, ct', w'))
     \<and> (ok \<longrightarrow>
          trace w' = trace w @ start_release ct @
            [Opened (next_handle w) (source ct),
             PropSet (next_handle w) CAP_PROP_FRAME_WIDTH 1280,
             PropSet (next_handle w) CAP_PROP_FRAME_HEIGHT 720,
             PropSet (next_handle w) CAP_PROP_FPS 30,
             ThreadStarted]
          \<and> cap ct' = Some (next_handle w) \<and> isOpened w' (next_handle w)
          \<and> running ct' \<and> qthread ct' = Alive \<and> pc ct' = LoopTest)
     \<and> (\<not> ok \<longrightarrow>
          trace w' = trace w @ start_release ct @
            [OpenFailed (next_handle w) (source ct),
             ErrorOccurred (''Failed to open camera source: '' @ str_source (source ct))]
          \<and> running ct' = running ct \<and> qthread ct' = qthread ct)"
proof (cases "open_ok e (next_handle w) (source ct)")
  case True
  then have "\<And>g. open_ok (e\<lparr>set_ok := g\<rparr>) (next_handle w) (source ct)"
    by simp
  then show ?thesis
    using assms(2,3) True
    by (auto simp: start_streaming_succeeds isOpened_def)
next
  case False
  then have "\<And>g. \<not> open_ok (e\<lparr>set_ok := g\<rparr>) (next_handle w) (source ct)"
    by simp
  then show ?thesis
    using assms(3) False
    by (auto simp: start_streaming_fails [OF assms(1)])
qed

theorem start_streaming_applies_hints_witness:
  "world_ok world0 \<and> qthread CameraThread_init \<noteq> Alive
   \<and> \<not> set_ok env_five 0 CAP_PROP_FPS 30
   \<and> fst (start_streaming env_five (CameraThread_init, world0)) = True
   \<and> trace (snd (snd (start_streaming env_five (CameraThread_init, world0)))) =
       [Opened 0 (Device 0), PropSet 0 CAP_PROP_FRAME_WIDTH 1280,
        PropSet 0 CAP_PROP_FRAME_HEIGHT 720, PropSet 0 CAP_PROP_FPS 30, ThreadStarted]
   \<and> fst (start_streaming env_none (CameraThread_init, world0)) = False
   \<and> trace (snd (snd (start_streaming env_none (CameraThread_init, world0)))) =
       [OpenFailed 0 (Device 0), ErrorOccurred ''Failed to open camera source: 0'']"
proof -
  have ok: "world_ok world0"
    by (simp add: world_ok_def world0_def)
  have na: "qthread CameraThread_init \<noteq> Alive"
    by (simp add: CameraThread_init_def)
  obtain r ct' w' where run: "start_streaming env_five (CameraThread_init, world0) = (r, ct', w')"
    by (cases "start_streaming env_five (CameraThread_init, world0)")
  obtain r2 ct2 w2 where run2: "start_streaming env_none (CameraThread_init, world0) = (r2, ct2, w2)"
    by (cases "start_streaming env_none (CameraThread_init, world0)")
  show ?thesis
    using start_streaming_applies_hints [OF ok na run] start_streaming_applies_hints [OF ok na run2]
      ok na run run2
    by (simp add: env_five_def env_none_def world0_def CameraThread_init_def start_release_def)
qed

section \<open>The acquisition loop on its own\<close>

lemma run_for_add: "run_for e (m + n) cw = run_for e n (run_for e m cw)"
  by (induction m arbitrary: cw) simp_all

lemma run_step_not_alive: "qthread ct \<noteq> Alive \<Longrightarrow> run_step e (ct, w) = (ct, w)"
  by (simp add: run_step_def)

lemma run_for_not_alive: "qthread ct \<noteq> Alive \<Longrightarrow> run_for e n (ct, w) = (ct, w)"
  by (induction n) (simp_all add: run_step_not_alive)

lemma run_iteration:
  assumes "at_loop_entry ct w" and "read_result e (nreads w) = Some f"
  shows "run_for e 4 (ct, w) =
           (ct, w\<lparr>nreads := Suc (nreads w), trace := trace w @ [FrameReadyRaw f, FrameReady f]\<rparr>)"
  using assms
  by (auto simp: at_loop_entry_def eval_nat_numeral run_step_def cap_read_def emit_def isOpened_def
      split: option.splits)

lemma run_last_iteration:
  assumes "at_loop_entry ct w" and "read_result e (nreads w) = None" and "cap ct = Some h"
  shows "run_for e 6 (ct, w) =
           (ct\<lparr>cap := None, pc := Returned, qthread := Finished\<rparr>,
            w\<lparr>nreads := Suc (nreads w), open_handles := removeAll h (open_handles w),
              trace := trace w @ [ErrorOccurred ''Failed to read frame from camera.'',
                                  Released h LoopPath]\<rparr>)"
  using assms
  by (auto simp: at_loop_entry_def eval_nat_numeral run_step_def cap_read_def emit_def isOpened_def
      release_def split: option.splits)

lemma run_whole:
  assumes "at_loop_entry ct w" and "cap ct = Some h"
      and "\<forall>k<length fs. read_result e (nreads w + k) = Some (fs ! k)"
      and "read_result e (nreads w + length fs) = None"
  shows "run_for e (4 * length fs + 6) (ct, w) =
           (ct\<lparr>cap := None, pc := Returned, qthread := Finished\<rparr>,
            w\<lparr>nreads := Suc (nreads w + length fs), open_handles := removeAll h (open_handles w),
              trace := trace w @ deliveries fs @
                 [ErrorOccurred ''Failed to read frame from camera.'', Released h LoopPath]\<rparr>)"
  using assms
proof (induction fs arbitrary: w)
  case Nil
  then show ?case
    using run_last_iteration [of ct w e h] by (simp add: deliveries_def)
next
  case (Cons f fs)
  let ?w = "w\<lparr>nreads := Suc (nreads w), trace := trace w @ [FrameReadyRaw f, FrameReady f]\<rparr>"
  have first: "read_result e (nreads w) = Some f"
    using Cons.prems(3) by force
  have step: "run_for e 4 (ct, w) = (ct, ?w)"
    using Cons.prems(1) first by (rule run_iteration)
  have entry: "at_loop_entry ct ?w"
    using Cons.prems(1) by (simp add: at_loop_entry_def isOpened_def split: option.splits)
  have rest: "\<forall>k<length fs. read_result e (nreads ?w + k) = Some (fs ! k)"
  proof (intro allI impI)
    fix k assume "k < length fs"
    then have "read_result e (nreads w + Suc k) = Some ((f # fs) ! Suc k)"
      using Cons.prems(3) by (metis Suc_less_eq length_Cons)
    then show "read_result e (nreads ?w + k) = Some (fs ! k)" by simp
  qed
  have last: "read_result e (nreads ?w + length fs) = None"
    using Cons.prems(4) by simp
  have "run_for e (4 * length (f # fs) + 6) (ct, w) = run_for e (4 * length fs + 6) (run_for e 4 (ct, w))"
    using run_for_add [of e 4 "4 * length fs + 6" "(ct, w)"] by (simp add: algebra_simps)
  also have "\<dots> = run_for e (4 * length fs + 6) (ct, ?w)"
    by (simp only: step)
  finally show ?case
    using Cons.IH [OF entry Cons.prems(2) rest last] by (simp add: deliveries_def)
qed

lemma run_for_stays:
  assumes "qthread (fst (run_for e n cw)) \<noteq> Alive" and "n \<le> m"
  shows "run_for e m cw = run_for e n cw"
proof -
  obtain d where m: "m = n + d"
    using assms(2) by (auto simp: le_iff_add)
  obtain ct w where cw: "run_for e n cw = (ct, w)"
    by (cases "run_for e n cw")
  have "run_for e d (ct, w) = (ct, w)"
    using assms(1) cw by (intro run_for_not_alive) simp
  then show ?thesis
    by (simp only: m run_for_add cw)
qed

lemma run_step_extends: "\<exists>evs. trace (snd (run_step e cw)) = trace (snd cw) @ evs"
  by (cases cw) (auto simp: run_step_def emit_def release_def Let_def split: run_pc.splits option.splits)

lemma run_for_extends: "\<exists>evs. trace (snd (run_for e n cw)) = trace (snd cw) @ evs"
proof (induction n arbitrary: cw)
  case 0
  then show ?case by simp
next
  case (Suc n)
  obtain a where a: "trace (snd (run_step e cw)) = trace (snd cw) @ a"
    using run_step_extends by blast
  obtain b where "trace (snd (run_for e n (run_step e cw))) = trace (snd (run_step e cw)) @ b"
    using Suc.IH by blast
  with a show ?case by simp
qed

lemma prefix_filter: "prefix xs ys \<Longrightarrow> prefix (filter P xs) (filter P ys)"
  by (auto simp: prefix_def)

text \<open>
  C2. Let the worker enter the loop and run with no stop requested, and let the reads
  deliver the frames \<open>fs\<close> and then fail. After \<open>4 * length fs + 6\<close> steps the thread
  has finished, and from then on the signals emitted are exactly: for each frame of
  \<open>fs\<close>, in read order, \<^verbatim>\<open>frame_ready_raw\<close> and then \<^verbatim>\<open>frame_ready\<close>; then one
  \<^verbatim>\<open>error_occurred\<close>; nothing after it. At every earlier moment the signals emitted so
  far are a prefix of this list. Each of the two frame signals alone carries every frame
  once, in read order.
\<close>

theorem run_delivers_in_read_order:
  assumes "at_loop_entry ct w"
      and "\<forall>k<length fs. read_result e (nreads w + k) = Some (fs ! k)"
      and "read_result e (nreads w + length fs) = None"
  shows "(\<forall>m\<ge>4 * length fs + 6.
            qthread (fst (run_for e m (ct, w))) = Finished
            \<and> notifications (snd (run_for e m (ct, w))) =
                notifications w @ deliveries fs @ [ErrorOccurred ''Failed to read frame from camera.''])
         \<and> (\<forall>m. prefix (notifications (snd (run_for e m (ct, w))))
                  (notifications w @ deliveries fs @ [ErrorOccurred ''Failed to read frame from camera.'']))
         \<and> filter (\<lambda>ev. \<exists>f. ev = FrameReadyRaw f) (deliveries fs) = map FrameReadyRaw fs
         \<and> filter (\<lambda>ev. \<exists>f. ev = FrameReady f) (deliveries fs) = map FrameReady fs"
proof -
  let ?N = "4 * length fs + 6"
  let ?final = "notifications w @ deliveries fs @ [ErrorOccurred ''Failed to read frame from camera.'']"
  obtain h where h: "cap ct = Some h"
    using assms(1) by (auto simp: at_loop_entry_def split: option.splits)
  note whole = run_whole [OF assms(1) h assms(2,3)]
  have nd: "filter is_notification (deliveries fs) = deliveries fs"
    by (induction fs) (simp_all add: deliveries_def)
  have fin: "qthread (fst (run_for e ?N (ct, w))) = Finished"
    "notifications (snd (run_for e ?N (ct, w))) = ?final"
    by (simp_all add: whole notifications_def nd)
  have late: "run_for e m (ct, w) = run_for e ?N (ct, w)" if "?N \<le> m" for m
    using fin(1) that by (intro run_for_stays) simp_all
  have always: "prefix (notifications (snd (run_for e m (ct, w)))) ?final" for m
  proof -
    let ?M = "max m ?N"
    obtain d where d: "?M = m + d"
      using le_Suc_ex max.cobounded1 by blast
    obtain evs where "trace (snd (run_for e d (run_for e m (ct, w)))) = trace (snd (run_for e m (ct, w))) @ evs"
      using run_for_extends by blast
    then have "prefix (trace (snd (run_for e m (ct, w)))) (trace (snd (run_for e ?M (ct, w))))"
      unfolding d run_for_add by simp
    then have "prefix (notifications (snd (run_for e m (ct, w)))) (notifications (snd (run_for e ?M (ct, w))))"
      unfolding notifications_def by (rule prefix_filter)
    moreover have "run_for e ?M (ct, w) = run_for e ?N (ct, w)"
      by (rule late) simp
    ultimately show ?thesis
      using fin(2) by simp
  qed
  have raw: "filter (\<lambda>ev. \<exists>f. ev = FrameReadyRaw f) (deliveries fs) = map FrameReadyRaw fs"
    by (induction fs) (simp_all add: deliveries_def)
  have img: "filter (\<lambda>ev. \<exists>f. ev = FrameReady f) (deliveries fs) = map FrameReady fs"
    by (induction fs) (simp_all add: deliveries_def)
  have after: "qthread (fst (run_for e m (ct, w))) = Finished
      \<and> notifications (snd (run_for e m (ct, w))) = ?final" if "?N \<le> m" for m
    using fin by (simp only: late [OF that] simp_thms)
  show ?thesis
    using after always raw img by blast
qed


lemma started_five:
  "start_streaming env_five (CameraThread_init, world0) =
     (True,
      \<lparr>running = True, cap = Some 0, source = Device 0, qthread = Alive, pc = LoopTest\<rparr>,
      \<lparr>next_handle = 1, open_handles = [0], nreads = 0,
        trace = [Opened 0 (Device 0), PropSet 0 CAP_PROP_FRAME_WIDTH 1280,
                 PropSet 0 CAP_PROP_FRAME_HEIGHT 720, PropSet 0 CAP_PROP_FPS 30, ThreadStarted]\<rparr>)"
  by (simp add: start_streaming_def env_five_def CameraThread_init_def world0_def VideoCapture_def
      isOpened_def emit_def cap_set_def qthread_start_def)

theorem run_delivers_in_read_order_witness:
  "(\<exists>ct w. start_streaming env_five (CameraThread_init, world0) = (True, ct, w)
      \<and> at_loop_entry ct w
      \<and> (\<forall>k<5. read_result env_five (nreads w + k) = Some (10 + k))
      \<and> read_result env_five (nreads w + 5) = None
      \<and> notifications (snd (run_for env_five 26 (ct, w))) =
          [FrameReadyRaw 10, FrameReady 10, FrameReadyRaw 11, FrameReady 11,
           FrameReadyRaw 12, FrameReady 12, FrameReadyRaw 13, FrameReady 13,
           FrameReadyRaw 14, FrameReady 14,
           ErrorOccurred ''Failed to read frame from camera.'']
      \<and> notifications (snd (run_for env_five 1000 (ct, w))) =
          notifications (snd (run_for env_five 26 (ct, w))))"
proof -
  let ?ct = "\<lparr>running = True, cap = Some 0, source = Device 0, qthread = Alive, pc = LoopTest\<rparr>"
  let ?w = "\<lparr>next_handle = 1, open_handles = [0], nreads = 0,
        trace = [Opened 0 (Device 0), PropSet 0 CAP_PROP_FRAME_WIDTH 1280,
                 PropSet 0 CAP_PROP_FRAME_HEIGHT 720, PropSet 0 CAP_PROP_FPS 30, ThreadStarted]\<rparr>"
  let ?fs = "map (\<lambda>k. 10 + k) [0..<5]"
  have entry: "at_loop_entry ?ct ?w"
    by (simp add: at_loop_entry_def isOpened_def)
  have reads: "\<forall>k<length ?fs. read_result env_five (nreads ?w + k) = Some (?fs ! k)"
    by (simp add: env_five_def)
  have last: "read_result env_five (nreads ?w + length ?fs) = None"
    by (simp add: env_five_def)
  have fs: "deliveries ?fs = [FrameReadyRaw 10, FrameReady 10, FrameReadyRaw 11, FrameReady 11,
           FrameReadyRaw 12, FrameReady 12, FrameReadyRaw 13, FrameReady 13,
           FrameReadyRaw 14, FrameReady 14]"
    by (simp add: deliveries_def upt_rec)
  from run_delivers_in_read_order [OF entry reads last]
  have "\<forall>m\<ge>26. notifications (snd (run_for env_five m (?ct, ?w))) =
          notifications ?w @ deliveries ?fs @ [ErrorOccurred ''Failed to read frame from camera.'']"
    by simp
  then have "notifications (snd (run_for env_five 26 (?ct, ?w))) =
          notifications ?w @ deliveries ?fs @ [ErrorOccurred ''Failed to read frame from camera.'']"
     "notifications (snd (run_for env_five 1000 (?ct, ?w))) =
          notifications ?w @ deliveries ?fs @ [ErrorOccurred ''Failed to read frame from camera.'']"
    by simp_all
  then show ?thesis
    using entry started_five by (simp add: fs notifications_def env_five_def)
qed

section \<open>Stopping a session while its loop runs\<close>

lemma releases_emit [simp]: "releases (emit ev w) = releases w @ (case release_of ev of None \<Rightarrow> [] | Some x \<Rightarrow> [x])"
  by (simp add: releases_def emit_def map_filter_def split: option.splits)

lemma releases_release [simp]: "releases (release p h w) = releases w @ [(h, p)]"
  by (simp add: releases_def release_def map_filter_def)

lemma releases_nreads [simp]: "releases (w\<lparr>nreads := n\<rparr>) = releases w"
  by (simp add: releases_def)

lemma open_handles_emit [simp]: "open_handles (emit ev w) = open_handles w"
  by (simp add: emit_def)

lemma open_handles_release [simp]: "open_handles (release p h w) = removeAll h (open_handles w)"
  by (simp add: release_def)

lemma worker_ok_run_step:
  assumes "worker_ok h ct w" and "run_step e (ct, w) = (ct', w')"
  shows "worker_ok h ct' w'"
proof (cases "qthread ct = Alive")
  case False
  then show ?thesis using assms by (simp add: run_step_def)
next
  case True
  show ?thesis
  proof (cases "pc ct")
    case (Check r)
    then show ?thesis using assms True
      by (cases r) (auto simp: run_step_def worker_ok_def)
  qed (use assms True in \<open>auto simp: run_step_def worker_ok_def split: if_splits\<close>)
qed

lemma run_step_fields:
  assumes "run_step e (ct, w) = (ct', w')"
  shows "running ct' = running ct" and "source ct' = source ct"
    and "qthread ct \<noteq> Alive \<Longrightarrow> ct' = ct \<and> w' = w"
    and "qthread ct' = Finished \<or> qthread ct' = qthread ct"
  using assms
  by (auto simp: run_step_def split: if_splits run_pc.splits option.splits)

lemma caller_ok_run_step:
  assumes "caller_ok ps ct" and "run_step e (ct, w) = (ct', w')"
  shows "caller_ok ps ct'"
  using assms run_step_fields [OF assms(2)]
  by (cases ps) (auto simp: caller_ok_def)

lemma started_inv_worker:
  "started_inv h s \<Longrightarrow> started_inv h (session_step e s Worker)"
  by (cases s; cases "run_step e (fst (snd s), snd (snd s))")
     (auto simp: started_inv_def intro: worker_ok_run_step caller_ok_run_step)

lemma worker_ok_running [simp]: "worker_ok h (ct\<lparr>running := b\<rparr>) w = worker_ok h ct w"
  by (simp add: worker_ok_def split: qthread.splits run_pc.splits)

lemma started_inv_caller:
  assumes "started_inv h s"
  shows "started_inv h (session_step e s Caller)"
proof -
  obtain ps ct w where s: "s = (ps, ct, w)" by (cases s)
  show ?thesis
  proof (cases ps)
    case Nil
    then show ?thesis using assms s by simp
  next
    case (Cons p qs)
    have tail: "caller_ok qs ct'" if "list_all (\<lambda>q. q = StopSetFlag) qs" for ct'
      using that by (cases qs) (auto simp: caller_ok_def)
    from assms s Cons consider "p = StopSetFlag" | "p = StopWait" | "p = StopTestCap"
      by (auto simp: started_inv_def caller_ok_def)
    then show ?thesis
    proof cases
      case 1
      then show ?thesis using assms s Cons
        by (auto simp: started_inv_def caller_ok_def stop_step_def)
    next
      case 2
      then show ?thesis using assms s Cons
        by (auto simp: started_inv_def caller_ok_def stop_step_def worker_ok_def
            split: qthread.splits)
    next
      case 3
      then show ?thesis using assms s Cons tail
        by (auto simp: started_inv_def caller_ok_def stop_step_def worker_ok_def)
    qed
  qed
qed

lemma started_inv_step: "started_inv h s \<Longrightarrow> started_inv h (session_step e s a)"
  by (cases a) (simp_all only: started_inv_caller started_inv_worker)

lemma started_inv_exec: "started_inv h s \<Longrightarrow> started_inv h (session_exec e sch s)"
  unfolding session_exec_def
  by (induction sch arbitrary: s) (simp_all add: started_inv_step)

lemma started_inv_init:
  assumes "start_streaming e (set_source src CameraThread_init, world0) = (True, ct, w)"
  shows "started_inv 0 (replicate k StopSetFlag, ct, w)"
proof -
  have op: "open_ok e (next_handle world0) (source (set_source src CameraThread_init))"
  proof (rule ccontr)
    assume "\<not> ?thesis"
    then show False
      using assms start_streaming_fails [of world0 e "set_source src CameraThread_init"]
      by (simp add: world_ok_def world0_def)
  qed
  have "caller_ok (replicate k StopSetFlag) ct"
    by (cases k) (simp_all add: caller_ok_def list_all_length)
  then show ?thesis
    using assms unfolding start_streaming_succeeds [OF op]
    by (auto simp: started_inv_def worker_ok_def set_source_def CameraThread_init_def world0_def
        start_release_def releases_def map_filter_def)
qed

lemma raw_frames_emit [simp]:
  "raw_frames (emit ev w) = raw_frames w @ (case raw_of ev of None \<Rightarrow> [] | Some f \<Rightarrow> [f])"
  by (simp add: raw_frames_def emit_def map_filter_def split: option.splits)

lemma raw_frames_release [simp]: "raw_frames (release p h w) = raw_frames w"
  by (simp add: raw_frames_def release_def map_filter_def)

lemma raw_frames_nreads [simp]: "raw_frames (w\<lparr>nreads := n\<rparr>) = raw_frames w"
  by (simp add: raw_frames_def)

lemma nreads_emit [simp]: "nreads (emit ev w) = nreads w"
  by (simp add: emit_def)

lemma nreads_release [simp]: "nreads (release p h w) = nreads w"
  by (simp add: release_def)

lemma notifications_release [simp]: "notifications (release p h w) = notifications w"
  by (simp add: notifications_def release_def)

lemma work_left_run_step:
  assumes "worker_ok h ct w" and "\<not> running ct" and "run_step e (ct, w) = (ct', w')"
  shows "work_left ct' \<le> work_left ct - 1"
proof (cases "qthread ct = Alive")
  case False
  then show ?thesis using assms by (simp add: run_step_def work_left_def)
next
  case True
  show ?thesis
  proof (cases "pc ct")
    case (Check r)
    then show ?thesis using assms True
      by (cases r) (auto simp: run_step_def work_left_def)
  next
    case Read
    then show ?thesis using assms True
      by (cases "cap_read e w h") (auto simp: run_step_def work_left_def worker_ok_def)
  qed (use assms True in \<open>auto simp: run_step_def work_left_def worker_ok_def split: if_splits\<close>)
qed

lemma pending_run_step:
  assumes "\<not> running ct" and "run_step e (ct, w) = (ct', w')"
  shows "nreads w' + reads_pending ct' \<le> nreads w + reads_pending ct"
    and "length (raw_frames w') + frames_pending ct' \<le> length (raw_frames w) + frames_pending ct"
proof -
  show "nreads w' + reads_pending ct' \<le> nreads w + reads_pending ct"
    using assms
    by (auto simp: run_step_def reads_pending_def split: if_splits run_pc.splits option.splits)
  show "length (raw_frames w') + frames_pending ct' \<le> length (raw_frames w) + frames_pending ct"
    using assms
    by (auto simp: run_step_def frames_pending_def split: if_splits run_pc.splits option.splits)
qed

lemma stop_step_fields:
  assumes "stop_step (p, ct, w) = (p', ct', w')"
  shows "pc ct' = pc ct" and "qthread ct' = qthread ct" and "source ct' = source ct"
    and "\<not> running ct \<Longrightarrow> \<not> running ct'"
    and "nreads w' = nreads w" and "raw_frames w' = raw_frames w"
    and "notifications w' = notifications w"
  using assms
  by (auto simp: stop_step_def split: stop_pc.splits if_splits option.splits)

lemma flag_down_step: "flag_down s \<Longrightarrow> flag_down (session_step e s a)"
proof -
  assume fd: "flag_down s"
  obtain ps ct w where s: "s = (ps, ct, w)" by (cases s)
  show ?thesis
  proof (cases a)
    case Worker
    obtain ct' w' where r: "run_step e (ct, w) = (ct', w')" by (cases "run_step e (ct, w)")
    then show ?thesis using fd s Worker run_step_fields(1) [OF r] by (simp add: flag_down_def)
  next
    case Caller
    show ?thesis
    proof (cases ps)
      case Nil
      then show ?thesis using fd s Caller by simp
    next
      case (Cons p qs)
      obtain p' ct' w' where r: "stop_step (p, ct, w) = (p', ct', w')" by (cases "stop_step (p, ct, w)")
      then show ?thesis using fd s Caller Cons stop_step_fields(4) [OF r] by (simp add: flag_down_def)
    qed
  qed
qed

lemma step_measures:
  assumes "started_inv h s" and "flag_down s"
  shows "work_left (the_thread (session_step e s a)) \<le> work_left (the_thread s) - (if a = Worker then 1 else 0)"
    and "nreads (the_world (session_step e s a)) + reads_pending (the_thread (session_step e s a))
           \<le> nreads (the_world s) + reads_pending (the_thread s)"
    and "length (raw_frames (the_world (session_step e s a))) + frames_pending (the_thread (session_step e s a))
           \<le> length (raw_frames (the_world s)) + frames_pending (the_thread s)"
proof -
  obtain ps ct w where s: "s = (ps, ct, w)" by (cases s)
  have inv: "worker_ok h ct w" and fd: "\<not> running ct"
    using assms s by (simp_all add: started_inv_def flag_down_def)
  show "work_left (the_thread (session_step e s a)) \<le> work_left (the_thread s) - (if a = Worker then 1 else 0)"
    "nreads (the_world (session_step e s a)) + reads_pending (the_thread (session_step e s a))
           \<le> nreads (the_world s) + reads_pending (the_thread s)"
    "length (raw_frames (the_world (session_step e s a))) + frames_pending (the_thread (session_step e s a))
           \<le> length (raw_frames (the_world s)) + frames_pending (the_thread s)"
  proof (atomize (full), cases a)
    case Worker
    obtain ct' w' where r: "run_step e (ct, w) = (ct', w')" by (cases "run_step e (ct, w)")
    show "work_left (the_thread (session_step e s a)) \<le> work_left (the_thread s) - (if a = Worker then 1 else 0)
      \<and> nreads (the_world (session_step e s a)) + reads_pending (the_thread (session_step e s a))
           \<le> nreads (the_world s) + reads_pending (the_thread s)
      \<and> length (raw_frames (the_world (session_step e s a))) + frames_pending (the_thread (session_step e s a))
           \<le> length (raw_frames (the_world s)) + frames_pending (the_thread s)"
      using work_left_run_step [OF inv fd r] pending_run_step [OF fd r] s Worker r
      by (simp add: the_thread_def the_world_def)
  next
    case Caller
    show "work_left (the_thread (session_step e s a)) \<le> work_left (the_thread s) - (if a = Worker then 1 else 0)
      \<and> nreads (the_world (session_step e s a)) + reads_pending (the_thread (session_step e s a))
           \<le> nreads (the_world s) + reads_pending (the_thread s)
      \<and> length (raw_frames (the_world (session_step e s a))) + frames_pending (the_thread (session_step e s a))
           \<le> length (raw_frames (the_world s)) + frames_pending (the_thread s)"
    proof (cases ps)
      case Nil
      then show ?thesis using s Caller by (simp add: the_thread_def the_world_def)
    next
      case (Cons p qs)
      obtain p' ct' w' where r: "stop_step (p, ct, w) = (p', ct', w')" by (cases "stop_step (p, ct, w)")
      show ?thesis
        using stop_step_fields [OF r] s Caller Cons r
        by (simp add: the_thread_def the_world_def work_left_def reads_pending_def frames_pending_def)
    qed
  qed
qed

lemma session_exec_append:
  "session_exec e (a @ b) s = session_exec e b (session_exec e a s)"
  by (simp add: session_exec_def)

lemma session_exec_Cons:
  "session_exec e (x # b) s = session_exec e b (session_step e s x)"
  by (simp add: session_exec_def)

lemma flag_down_exec: "flag_down s \<Longrightarrow> flag_down (session_exec e sch s)"
  unfolding session_exec_def
  by (induction sch arbitrary: s) (simp_all add: flag_down_step)

lemma exec_measures:
  assumes "started_inv h s" and "flag_down s"
  shows "work_left (the_thread (session_exec e sch s)) \<le> work_left (the_thread s) - count_list sch Worker
     \<and> nreads (the_world (session_exec e sch s)) + reads_pending (the_thread (session_exec e sch s))
           \<le> nreads (the_world s) + reads_pending (the_thread s)
     \<and> length (raw_frames (the_world (session_exec e sch s))) + frames_pending (the_thread (session_exec e sch s))
           \<le> length (raw_frames (the_world s)) + frames_pending (the_thread s)"
  using assms
proof (induction sch arbitrary: s)
  case Nil
  then show ?case by (simp add: session_exec_def)
next
  case (Cons a sch)
  let ?s = "session_step e s a"
  have inv: "started_inv h ?s" and fd: "flag_down ?s"
    using Cons.prems by (simp_all add: started_inv_step flag_down_step)
  note ih = Cons.IH [OF inv fd]
  note st = step_measures [OF Cons.prems, of e a]
  show ?case
    unfolding session_exec_Cons using ih st by (cases a) auto
qed

lemma work_left_le: "work_left ct \<le> 7"
  by (cases "pc ct" rule: pc_rank.cases) (simp_all add: work_left_def)

lemma work_done:
  assumes "worker_ok h ct w" and "work_left ct = 0"
  shows "qthread ct = Finished"
  using assms
  by (cases "pc ct" rule: pc_rank.cases)
     (auto simp: worker_ok_def work_left_def split: qthread.splits if_splits)

lemma worker_finishes:
  assumes "started_inv h s" and "flag_down s" and "7 \<le> count_list sch Worker"
  shows "qthread (the_thread (session_exec e sch s)) = Finished"
proof -
  have "work_left (the_thread (session_exec e sch s)) \<le> work_left (the_thread s) - count_list sch Worker"
    using exec_measures [OF assms(1,2)] by blast
  then have z: "work_left (the_thread (session_exec e sch s)) = 0"
    using work_left_le [of "the_thread s"] assms(3) by simp
  have "started_inv h (session_exec e sch s)"
    using assms(1) by (rule started_inv_exec)
  then have "worker_ok h (the_thread (session_exec e sch s)) (the_world (session_exec e sch s))"
    by (cases "session_exec e sch s") (simp add: started_inv_def the_thread_def the_world_def)
  then show ?thesis using z by (rule work_done)
qed

lemma call_left_step:
  assumes "started_inv h s"
  shows "call_left (fst (session_step e s a))
           \<le> call_left (fst s) - (if a = Caller \<and> qthread (the_thread s) \<noteq> Alive then 1 else 0)"
proof -
  obtain ps ct w where s: "s = (ps, ct, w)" by (cases s)
  show ?thesis
  proof (cases a)
    case Worker
    then show ?thesis using s by (cases "run_step e (ct, w)") simp
  next
    case Caller
    show ?thesis
    proof (cases ps)
      case Nil
      then show ?thesis using s Caller by simp
    next
      case (Cons p qs)
      have qs: "call_left qs = 3 * length qs" if "list_all (\<lambda>q. q = StopSetFlag) qs"
        using that by (cases qs) auto
      from assms s Cons consider "p = StopSetFlag" | "p = StopWait" | "p = StopTestCap"
        by (auto simp: started_inv_def caller_ok_def)
      then show ?thesis
      proof cases
        case 1
        then show ?thesis using s Caller Cons by (simp add: stop_step_def)
      next
        case 2
        then show ?thesis using s Caller Cons by (simp add: stop_step_def the_thread_def)
      next
        case 3
        then show ?thesis using assms s Caller Cons qs
          by (auto simp: stop_step_def the_thread_def started_inv_def caller_ok_def worker_ok_def)
      qed
    qed
  qed
qed

lemma finished_step:
  assumes "qthread (the_thread s) = Finished"
  shows "qthread (the_thread (session_step e s a)) = Finished"
proof -
  obtain ps ct w where s: "s = (ps, ct, w)" by (cases s)
  show ?thesis
  proof (cases a)
    case Worker
    then show ?thesis using assms s by (simp add: the_thread_def run_step_def)
  next
    case Caller
    show ?thesis
    proof (cases ps)
      case Nil
      then show ?thesis using assms s Caller by (simp add: the_thread_def)
    next
      case (Cons p qs)
      obtain p' ct' w' where r: "stop_step (p, ct, w) = (p', ct', w')" by (cases "stop_step (p, ct, w)")
      then show ?thesis using assms s Caller Cons stop_step_fields(2) [OF r] by (simp add: the_thread_def)
    qed
  qed
qed

lemma call_left_exec:
  assumes "started_inv h s"
  shows "call_left (fst (session_exec e sch s)) \<le> call_left (fst s)"
  using assms
proof (induction sch arbitrary: s)
  case Nil
  then show ?case by (simp add: session_exec_def)
next
  case (Cons a sch)
  have "call_left (fst (session_exec e sch (session_step e s a))) \<le> call_left (fst (session_step e s a))"
    using Cons.prems by (intro Cons.IH started_inv_step)
  also have "\<dots> \<le> call_left (fst s)"
    using call_left_step [OF Cons.prems, of e a] by simp
  finally show ?case unfolding session_exec_Cons .
qed

lemma call_left_exec_finished:
  assumes "started_inv h s" and "qthread (the_thread s) = Finished"
  shows "call_left (fst (session_exec e sch s)) \<le> call_left (fst s) - count_list sch Caller"
  using assms
proof (induction sch arbitrary: s)
  case Nil
  then show ?case by (simp add: session_exec_def)
next
  case (Cons a sch)
  let ?s = "session_step e s a"
  have "call_left (fst (session_exec e sch ?s)) \<le> call_left (fst ?s) - count_list sch Caller"
    using Cons.prems by (intro Cons.IH started_inv_step finished_step)
  moreover have "call_left (fst ?s) \<le> call_left (fst s) - (if a = Caller then 1 else 0)"
    using call_left_step [OF Cons.prems(1), of e a] Cons.prems(2) by simp
  ultimately show ?case unfolding session_exec_Cons by (cases a) auto
qed

lemma call_left_0: "started_inv h s \<Longrightarrow> call_left (fst s) = 0 \<Longrightarrow> fst s = []"
  by (cases s; cases "fst s") (auto simp: started_inv_def caller_ok_def)

lemma frozen_step:
  "fst s = [] \<Longrightarrow> qthread (the_thread s) \<noteq> Alive \<Longrightarrow> session_step e s a = s"
  by (cases s; cases a) (auto simp: the_thread_def run_step_def)

lemma frozen:
  "fst s = [] \<Longrightarrow> qthread (the_thread s) \<noteq> Alive \<Longrightarrow> session_exec e sch s = s"
  unfolding session_exec_def
  by (induction sch) (simp_all add: frozen_step)

lemma stop_called_step:
  assumes "started_inv h s" and "stop_called s"
  shows "stop_called (session_step e s a)"
proof (cases "fst s = []")
  case True
  then show ?thesis using assms(2) by (simp add: stop_called_def flag_down_step finished_step)
next
  case False
  obtain ps ct w where s: "s = (ps, ct, w)" by (cases s)
  show ?thesis
  proof (cases a)
    case Worker
    then show ?thesis using False s by (cases "run_step e (ct, w)") (simp add: stop_called_def)
  next
    case Caller
    obtain p qs where ps: "ps = p # qs" using False s by (cases ps) auto
    from assms s ps consider "p = StopSetFlag" | "p = StopWait"
      | "p = StopTestCap \<and> \<not> running ct \<and> qthread ct = Finished"
      by (auto simp: started_inv_def caller_ok_def)
    then show ?thesis
      using s Caller ps
      by cases (auto simp: stop_called_def stop_step_def flag_down_def the_thread_def)
  qed
qed

lemma stop_called_exec:
  "started_inv h s \<Longrightarrow> stop_called s \<Longrightarrow> stop_called (session_exec e sch s)"
  unfolding session_exec_def
  by (induction sch arbitrary: s) (simp_all add: stop_called_step started_inv_step)

lemma flag_down_after_caller:
  assumes "started_inv h s" and "stop_called s"
  shows "flag_down (session_step e s Caller)"
proof -
  obtain ps ct w where s: "s = (ps, ct, w)" by (cases s)
  show ?thesis
  proof (cases ps)
    case Nil
    then show ?thesis using assms(2) s by (simp add: stop_called_def)
  next
    case (Cons p qs)
    from assms s Cons consider "p = StopSetFlag" | "p = StopWait \<and> \<not> running ct" | "p = StopTestCap \<and> \<not> running ct"
      by (auto simp: started_inv_def caller_ok_def)
    then show ?thesis
      using s Cons by cases (auto simp: stop_step_def flag_down_def)
  qed
qed

lemma stop_returns:
  assumes "started_inv h s" and "stop_called s" and "call_left (fst s) \<le> 3"
      and "7 \<le> count_list b Worker" and "2 \<le> count_list c Caller"
  shows "fst (session_exec e (Caller # b @ c) s) = []"
proof -
  let ?s1 = "session_step e s Caller"
  let ?s2 = "session_exec e b ?s1"
  let ?s3 = "session_exec e c ?s2"
  have inv1: "started_inv h ?s1" using assms(1) by (rule started_inv_step)
  have fd1: "flag_down ?s1" using assms(1,2) by (rule flag_down_after_caller)
  have inv2: "started_inv h ?s2" using inv1 by (rule started_inv_exec)
  have fin2: "qthread (the_thread ?s2) = Finished"
    using inv1 fd1 assms(4) by (rule worker_finishes)
  have c1: "call_left (fst ?s1) \<le> 2"
  proof -
    obtain ps ct w where s: "s = (ps, ct, w)" by (cases s)
    show ?thesis
    proof (cases ps)
      case Nil
      then show ?thesis using s by simp
    next
      case (Cons p qs)
      from assms(1) s Cons consider "p = StopSetFlag" | "p = StopWait" | "p = StopTestCap"
        by (auto simp: started_inv_def caller_ok_def)
      then show ?thesis
      proof cases
        case 1
        then have "qs = []" using assms(3) s Cons by (cases qs) auto
        then show ?thesis using 1 s Cons by (simp add: stop_step_def)
      next
        case 2
        then have "qs = []" using assms(3) s Cons by (cases qs) auto
        then show ?thesis using 2 s Cons by (simp add: stop_step_def)
      next
        case 3
        then have "qs = []" using assms(3) s Cons by (cases qs) auto
        then show ?thesis using 3 s Cons by (simp add: stop_step_def)
      qed
    qed
  qed
  have "call_left (fst ?s2) \<le> 2"
    using call_left_exec [OF inv1, of e b] c1 by simp
  then have "call_left (fst ?s3) = 0"
    using call_left_exec_finished [OF inv2 fin2, of e c] assms(5) by simp
  moreover have "started_inv h ?s3" using inv2 by (rule started_inv_exec)
  ultimately have "fst ?s3 = []" by (intro call_left_0)
  then show ?thesis by (simp add: session_exec_Cons session_exec_append)
qed

lemma started_facts:
  assumes "start_streaming e (set_source src CameraThread_init, world0) = (True, ct, w)"
  shows "cap ct = Some 0" and "isOpened w 0" and "qthread ct = Alive" and "running ct"
    and "pc ct = LoopTest" and "open_handles w = [0]"
proof -
  have op: "open_ok e (next_handle world0) (source (set_source src CameraThread_init))"
  proof (rule ccontr)
    assume "\<not> ?thesis"
    then show False
      using assms start_streaming_fails [of world0 e "set_source src CameraThread_init"]
      by (simp add: world_ok_def world0_def)
  qed
  show "cap ct = Some 0" "isOpened w 0" "qthread ct = Alive" "running ct" "pc ct = LoopTest"
    "open_handles w = [0]"
    using assms unfolding start_streaming_succeeds [OF op]
    by (auto simp: set_source_def CameraThread_init_def world0_def isOpened_def)
qed

text \<open>
  C4. Start a session successfully, then let the caller make one \<^verbatim>\<open>stop_streaming\<close>
  call while the worker runs, in any interleaving and with any results of the reads.
  The caller is always at the first statement, at the wait or at the test after it, or has
  returned, and the worker never fails. Past the wait, and so after the return, the
  thread has finished, the flag is down, \<^verbatim>\<open>self.cap\<close> is cleared and no capture is open.
  After the return no further step of either thread changes anything: no signal is
  emitted any more. The stop does return: after one step of the caller, seven of the
  worker and two more of the caller, in a schedule with any other steps in between, the
  call has returned. Once the flag is down the worker makes at most one more read and
  emits at most one more frame before it leaves the loop.
\<close>

theorem stop_streaming_waits_for_loop:
  assumes "start_streaming e (set_source src CameraThread_init, world0) = (True, ct, w)"
      and "s = session_exec e sch ([StopSetFlag], ct, w)"
  shows "(fst s = [] \<or> fst s = [StopSetFlag] \<or> fst s = [StopWait] \<or> fst s = [StopTestCap])
     \<and> pc (the_thread s) \<noteq> Crashed
     \<and> (fst s = [StopTestCap] \<or> fst s = [] \<longrightarrow>
          qthread (the_thread s) = Finished \<and> is_idle (the_thread s) \<and> cap (the_thread s) = None
          \<and> open_handles (the_world s) = [])
     \<and> (fst s = [] \<longrightarrow> (\<forall>more. session_exec e more s = s))
     \<and> (\<forall>b c. 7 \<le> count_list b Worker \<and> 2 \<le> count_list c Caller \<longrightarrow>
            fst (session_exec e (Caller # b @ c) s) = [])
     \<and> (flag_down s \<longrightarrow>
          (\<forall>more. nreads (the_world (session_exec e more s)) \<le> nreads (the_world s) + 1
             \<and> length (raw_frames (the_world (session_exec e more s)))
                  \<le> length (raw_frames (the_world s)) + 1))"
proof -
  let ?s0 = "([StopSetFlag], ct, w)"
  have inv0: "started_inv 0 ?s0"
    using started_inv_init [OF assms(1), of 1] by simp
  have inv: "started_inv 0 s"
    unfolding assms(2) using inv0 by (rule started_inv_exec)
  have called: "stop_called s"
    unfolding assms(2) using inv0 by (rule stop_called_exec) (simp add: stop_called_def)
  have left: "call_left (fst s) \<le> 3"
    unfolding assms(2) using call_left_exec [OF inv0, of e sch] by simp
  obtain ps ct' w' where s: "s = (ps, ct', w')" by (cases s)
  have wok: "worker_ok 0 ct' w'" and cok: "caller_ok ps ct'"
    using inv s by (simp_all add: started_inv_def)
  have shape: "ps = [] \<or> ps = [StopSetFlag] \<or> ps = [StopWait] \<or> ps = [StopTestCap]"
  proof (cases ps)
    case Nil
    then show ?thesis by simp
  next
    case (Cons p qs)
    from cok Cons consider "p = StopSetFlag" | "p = StopWait" | "p = StopTestCap"
      by (auto simp: caller_ok_def)
    then show ?thesis
      using left s Cons by cases (cases qs; simp)+
  qed
  have nocrash: "pc ct' \<noteq> Crashed"
    using wok by (auto simp: worker_ok_def split: qthread.splits)
  have past: "qthread ct' = Finished \<and> is_idle ct' \<and> cap ct' = None \<and> open_handles w' = []"
    if "ps = [StopTestCap] \<or> ps = []"
  proof -
    have "qthread ct' = Finished \<and> \<not> running ct'"
      using that cok called s
      by (auto simp: caller_ok_def stop_called_def flag_down_def the_thread_def)
    then show ?thesis
      using wok by (auto simp: worker_ok_def is_idle_def)
  qed
  have still: "session_exec e more s = s" if "ps = []" for more
    using that past s by (intro frozen) (simp_all add: the_thread_def)
  have returns: "fst (session_exec e (Caller # b @ c) s) = []"
    if "7 \<le> count_list b Worker" "2 \<le> count_list c Caller" for b c
    using inv called left that by (rule stop_returns)
  have bound: "nreads (the_world (session_exec e more s)) \<le> nreads (the_world s) + 1
      \<and> length (raw_frames (the_world (session_exec e more s))) \<le> length (raw_frames (the_world s)) + 1"
    if "flag_down s" for more
  proof -
    have "reads_pending (the_thread s) \<le> 1" "frames_pending (the_thread s) \<le> 1"
      by (simp_all add: reads_pending_def frames_pending_def)
    then show ?thesis
      using exec_measures [OF inv that, of e more] by linarith
  qed
  show ?thesis
    using shape nocrash past still returns bound s
    by (simp add: the_thread_def the_world_def)
qed

text \<open>
  C5. Start a session successfully; it holds capture 0. Let the caller make any number
  of \<^verbatim>\<open>stop_streaming\<close> calls while the worker runs, in any interleaving and with any
  results of the reads. At every moment either the capture is open and \<^verbatim>\<open>release\<close> has
  not been called, or it is closed and \<^verbatim>\<open>release\<close> has been called exactly once, by the
  statements after the loop; the stop path never releases it. When the thread has
  finished the release has happened, and after a stop is called it does happen within
  seven steps of the worker.
\<close>

theorem capture_released_exactly_once:
  assumes "start_streaming e (set_source src CameraThread_init, world0) = (True, ct, w)"
      and "s = session_exec e sch (replicate k StopSetFlag, ct, w)"
  shows "cap ct = Some 0 \<and> isOpened w 0
     \<and> ((releases (the_world s) = [] \<and> open_handles (the_world s) = [0]
            \<and> qthread (the_thread s) = Alive)
         \<or> (releases (the_world s) = [(0, LoopPath)] \<and> open_handles (the_world s) = []))
     \<and> (qthread (the_thread s) = Finished \<longrightarrow> releases (the_world s) = [(0, LoopPath)])
     \<and> (0 < k \<longrightarrow> (\<forall>b. 7 \<le> count_list b Worker \<longrightarrow>
            releases (the_world (session_exec e (Caller # b) s)) = [(0, LoopPath)]))"
proof -
  let ?s0 = "(replicate k StopSetFlag, ct, w)"
  have inv0: "started_inv 0 ?s0"
    using assms(1) by (rule started_inv_init)
  have inv: "started_inv 0 s"
    unfolding assms(2) using inv0 by (rule started_inv_exec)
  have wok: "worker_ok 0 (the_thread s) (the_world s)"
    using inv by (cases s) (simp add: started_inv_def the_thread_def the_world_def)
  have now: "(releases (the_world s) = [] \<and> open_handles (the_world s) = [0]
            \<and> qthread (the_thread s) = Alive)
         \<or> (releases (the_world s) = [(0, LoopPath)] \<and> open_handles (the_world s) = [])"
    using wok by (auto simp: worker_ok_def split: qthread.splits run_pc.splits)
  have fin: "releases (the_world s) = [(0, LoopPath)]" if "qthread (the_thread s) = Finished"
    using wok that by (simp add: worker_ok_def)
  have later: "releases (the_world (session_exec e (Caller # b) s)) = [(0, LoopPath)]"
    if "0 < k" "7 \<le> count_list b Worker" for b
  proof -
    let ?s1 = "session_step e s Caller"
    let ?s2 = "session_exec e b ?s1"
    have "stop_called ?s0"
      using that(1) by (simp add: stop_called_def)
    then have called: "stop_called s"
      unfolding assms(2) using inv0 by (intro stop_called_exec)
    have inv1: "started_inv 0 ?s1" using inv by (rule started_inv_step)
    have fd1: "flag_down ?s1" using inv called by (rule flag_down_after_caller)
    have f2: "qthread (the_thread ?s2) = Finished"
      using inv1 fd1 that(2) by (rule worker_finishes)
    have "started_inv 0 ?s2" using inv1 by (rule started_inv_exec)
    then have "worker_ok 0 (the_thread ?s2) (the_world ?s2)"
      by (cases ?s2) (simp add: started_inv_def the_thread_def the_world_def)
    then have "releases (the_world ?s2) = [(0, LoopPath)]"
      using f2 by (simp add: worker_ok_def)
    then show ?thesis by (simp add: session_exec_Cons)
  qed
  show ?thesis
    using started_facts(1,2) [OF assms(1)] now fin later by blast
qed

lemma stop_streaming_not_alive:
  assumes "qthread ct \<noteq> Alive"
  shows "stop_streaming (ct, w) =
           Some (ct\<lparr>running := False, cap := None\<rparr>,
                 case cap ct of None \<Rightarrow> w | Some h \<Rightarrow> release StopPath h w)"
  using assms
  by (cases "cap ct") (simp_all add: stop_streaming_def stop_step_def eval_nat_numeral)

text \<open>
  A stop on a session that is not running is not always without effect. After a failed
  open the session is idle, and \<^verbatim>\<open>stop_streaming\<close> calls \<^verbatim>\<open>release\<close> on the capture
  object left in \<^verbatim>\<open>self.cap\<close> and clears it. After the loop has ended on a failed read the
  thread has finished with the flag still up, and \<^verbatim>\<open>stop_streaming\<close> lowers the flag.
\<close>

theorem stop_streaming_idempotent_counterexample:
  "start_streaming env_none (CameraThread_init, world0) = (False, failed_thread, failed_world)
   \<and> is_idle failed_thread
   \<and> stop_streaming (failed_thread, failed_world) =
       Some (failed_thread\<lparr>cap := None\<rparr>,
             failed_world\<lparr>trace := trace failed_world @ [Released 0 StopPath]\<rparr>)
   \<and> stop_streaming (failed_thread, failed_world) \<noteq> Some (failed_thread, failed_world)
   \<and> run_for env_five 26 (snd (start_streaming env_five (CameraThread_init, world0))) =
       (ended_thread, ended_world)
   \<and> \<not> isRunning ended_thread
   \<and> stop_streaming (ended_thread, ended_world) =
       Some (ended_thread\<lparr>running := False\<rparr>, ended_world)
   \<and> stop_streaming (ended_thread, ended_world) \<noteq> Some (ended_thread, ended_world)"
proof -
  have a: "start_streaming env_none (CameraThread_init, world0) = (False, failed_thread, failed_world)"
    by (simp add: start_streaming_def env_none_def CameraThread_init_def world0_def VideoCapture_def
        isOpened_def emit_def failed_thread_def failed_world_def)
  have b: "is_idle failed_thread"
    by (simp add: is_idle_def failed_thread_def)
  have c: "stop_streaming (failed_thread, failed_world) =
       Some (failed_thread\<lparr>cap := None\<rparr>,
             failed_world\<lparr>trace := trace failed_world @ [Released 0 StopPath]\<rparr>)"
    by (simp add: stop_streaming_def stop_step_def eval_nat_numeral release_def failed_thread_def
        failed_world_def)
  have d: "stop_streaming (failed_thread, failed_world) \<noteq> Some (failed_thread, failed_world)"
    unfolding c by (simp add: failed_thread_def)
  have e: "run_for env_five 26 (snd (start_streaming env_five (CameraThread_init, world0))) =
       (ended_thread, ended_world)"
    by code_simp
  have f: "\<not> isRunning ended_thread"
    by (simp add: isRunning_def ended_thread_def)
  have g: "stop_streaming (ended_thread, ended_world) =
       Some (ended_thread\<lparr>running := False\<rparr>, ended_world)"
    by (simp add: stop_streaming_def stop_step_def eval_nat_numeral ended_thread_def)
  have h: "stop_streaming (ended_thread, ended_world) \<noteq> Some (ended_thread, ended_world)"
    unfolding g by (simp add: ended_thread_def)
  from a b c d e f g h show ?thesis by blast
qed

text \<open>
  C8 (as the code has it). On a session whose thread is not running, \<^verbatim>\<open>stop_streaming\<close>
  returns without waiting and does exactly this: it lowers the flag, calls \<^verbatim>\<open>release\<close>
  on a capture object left in \<^verbatim>\<open>self.cap\<close>, and clears \<^verbatim>\<open>self.cap\<close>. It emits no
  signal, makes no read and no capture, leaves the thread and the source as they are, and
  leaves the session idle. It changes nothing at all when the flag is already down and
  \<^verbatim>\<open>self.cap\<close> is already cleared, as in a fresh session and in a stopped one. A second
  call changes nothing: two stops have the effect of one. The state in which a stop of a
  running session has returned, in any interleaving, is left unchanged by another stop.
\<close>

theorem stop_streaming_idempotent:
  assumes "qthread ct \<noteq> Alive"
  shows "stop_streaming (ct, w) =
           Some (ct\<lparr>running := False, cap := None\<rparr>,
                 case cap ct of None \<Rightarrow> w | Some h \<Rightarrow> release StopPath h w)
     \<and> (\<not> running ct \<and> cap ct = None \<longrightarrow> stop_streaming (ct, w) = Some (ct, w))
     \<and> (\<exists>ct' w'. stop_streaming (ct, w) = Some (ct', w')
            \<and> notifications w' = notifications w \<and> nreads w' = nreads w
            \<and> next_handle w' = next_handle w
            \<and> qthread ct' = qthread ct \<and> pc ct' = pc ct \<and> source ct' = source ct
            \<and> is_idle ct' \<and> cap ct' = None
            \<and> (is_idle ct \<longrightarrow> ct' = ct\<lparr>cap := None\<rparr>)
            \<and> (cap ct = None \<longrightarrow> w' = w)
            \<and> (\<forall>h. cap ct = Some h \<longrightarrow> w' = release StopPath h w)
            \<and> (\<forall>h. cap ct = Some h \<and> \<not> isOpened w h \<longrightarrow> open_handles w' = open_handles w)
            \<and> stop_streaming (ct', w') = Some (ct', w'))
     \<and> (\<forall>e src ct1 w1 sch.
           start_streaming e (set_source src CameraThread_init, world0) = (True, ct1, w1)
           \<and> fst (session_exec e sch ([StopSetFlag], ct1, w1)) = [] \<longrightarrow>
           stop_streaming (snd (session_exec e sch ([StopSetFlag], ct1, w1))) =
             Some (snd (session_exec e sch ([StopSetFlag], ct1, w1))))"
proof -
  let ?ct = "ct\<lparr>running := False, cap := None\<rparr>"
  let ?w = "case cap ct of None \<Rightarrow> w | Some h \<Rightarrow> release StopPath h w"
  have first: "stop_streaming (ct, w) = Some (?ct, ?w)"
    using assms by (rule stop_streaming_not_alive)
  have again: "stop_streaming (?ct, ?w) = Some (?ct, ?w)"
    using assms stop_streaming_not_alive [of ?ct ?w] by simp
  have idle: "is_idle ct \<longrightarrow> ?ct = ct\<lparr>cap := None\<rparr>"
    by (simp add: is_idle_def)
  have part1: "\<exists>ct' w'. stop_streaming (ct, w) = Some (ct', w')
            \<and> notifications w' = notifications w \<and> nreads w' = nreads w
            \<and> next_handle w' = next_handle w
            \<and> qthread ct' = qthread ct \<and> pc ct' = pc ct \<and> source ct' = source ct
            \<and> is_idle ct' \<and> cap ct' = None
            \<and> (is_idle ct \<longrightarrow> ct' = ct\<lparr>cap := None\<rparr>)
            \<and> (cap ct = None \<longrightarrow> w' = w)
            \<and> (\<forall>h. cap ct = Some h \<longrightarrow> w' = release StopPath h w)
            \<and> (\<forall>h. cap ct = Some h \<and> \<not> isOpened w h \<longrightarrow> open_handles w' = open_handles w)
            \<and> stop_streaming (ct', w') = Some (ct', w')"
    using first again idle assms
    by (auto simp: is_idle_def isOpened_def release_def notifications_def split: option.splits)
  have part2: "stop_streaming (snd (session_exec e sch ([StopSetFlag], ct1, w1))) =
             Some (snd (session_exec e sch ([StopSetFlag], ct1, w1)))"
    if "start_streaming e (set_source src CameraThread_init, world0) = (True, ct1, w1)"
      and "fst (session_exec e sch ([StopSetFlag], ct1, w1)) = []"
    for e src ct1 w1 sch
  proof -
    let ?s = "session_exec e sch ([StopSetFlag], ct1, w1)"
    have inv0: "started_inv 0 ([StopSetFlag], ct1, w1)"
      using started_inv_init [OF that(1), of 1] by simp
    have inv: "started_inv 0 ?s" using inv0 by (rule started_inv_exec)
    have called: "stop_called ?s"
      using inv0 by (rule stop_called_exec) (simp add: stop_called_def)
    obtain ps ct' w' where s: "?s = (ps, ct', w')" by (cases ?s)
    have "ps = []" using that(2) s by simp
    then have "\<not> running ct'" "worker_ok 0 ct' w'" "qthread ct' = Finished"
      using called inv s
      by (simp_all add: stop_called_def flag_down_def started_inv_def the_thread_def)
    then show ?thesis
      using s stop_streaming_not_alive [of ct' w'] by (simp add: worker_ok_def)
  qed
  have same: "\<not> running ct \<and> cap ct = None \<longrightarrow> stop_streaming (ct, w) = Some (ct, w)"
    using first by auto
  show ?thesis
    using first same part1 part2 by blast
qed

lemma started_live:
  "start_streaming env_live (set_source (Device 0) CameraThread_init, world0) =
     (True, live_thread, live_world)"
  by (simp add: start_streaming_def env_live_def set_source_def CameraThread_init_def world0_def
      VideoCapture_def isOpened_def emit_def cap_set_def qthread_start_def live_thread_def
      live_world_def)

lemma sched1_run:
  "session_exec env_live sched1 ([StopSetFlag], live_thread, live_world) =
     ([], \<lparr>running = False, cap = None, source = Device 0, qthread = Finished, pc = Returned\<rparr>,
      \<lparr>next_handle = 1, open_handles = [], nreads = 2,
        trace = [Opened 0 (Device 0), PropSet 0 CAP_PROP_FRAME_WIDTH 1280,
                 PropSet 0 CAP_PROP_FRAME_HEIGHT 720, PropSet 0 CAP_PROP_FPS 30, ThreadStarted,
                 FrameReadyRaw 0, FrameReady 0, FrameReadyRaw 1, FrameReady 1,
                 Released 0 LoopPath]\<rparr>)"
  by code_simp

lemma sched1_run2:
  "session_exec env_live sched1 ([StopSetFlag, StopSetFlag], live_thread, live_world) =
     ([StopSetFlag], \<lparr>running = False, cap = None, source = Device 0, qthread = Finished, pc = Returned\<rparr>,
      \<lparr>next_handle = 1, open_handles = [], nreads = 2,
        trace = [Opened 0 (Device 0), PropSet 0 CAP_PROP_FRAME_WIDTH 1280,
                 PropSet 0 CAP_PROP_FRAME_HEIGHT 720, PropSet 0 CAP_PROP_FPS 30, ThreadStarted,
                 FrameReadyRaw 0, FrameReady 0, FrameReadyRaw 1, FrameReady 1,
                 Released 0 LoopPath]\<rparr>)"
  by code_simp

theorem stop_streaming_waits_for_loop_witness:
  "start_streaming env_live (set_source (Device 0) CameraThread_init, world0) =
     (True, live_thread, live_world)
   \<and> fst (session_exec env_live sched1 ([StopSetFlag], live_thread, live_world)) = []
   \<and> is_idle (the_thread (session_exec env_live sched1 ([StopSetFlag], live_thread, live_world)))
   \<and> notifications (the_world (session_exec env_live (sched1 @ [Worker, Caller, Worker])
        ([StopSetFlag], live_thread, live_world))) =
       [FrameReadyRaw 0, FrameReady 0, FrameReadyRaw 1, FrameReady 1]"
proof -
  let ?s = "session_exec env_live sched1 ([StopSetFlag], live_thread, live_world)"
  have ret: "fst ?s = []"
    by (simp add: sched1_run)
  from stop_streaming_waits_for_loop [OF started_live refl, of sched1] ret
  have idle: "is_idle (the_thread ?s)" and still: "\<forall>more. session_exec env_live more ?s = ?s"
    by blast+
  have "session_exec env_live (sched1 @ [Worker, Caller, Worker]) ([StopSetFlag], live_thread, live_world) = ?s"
    using still by (simp add: session_exec_append)
  then show ?thesis
    using started_live ret idle by (simp add: sched1_run the_world_def notifications_def)
qed

theorem capture_released_exactly_once_witness:
  "start_streaming env_live (set_source (Device 0) CameraThread_init, world0) =
     (True, live_thread, live_world)
   \<and> releases (the_world (session_exec env_live sched1
        (replicate 2 StopSetFlag, live_thread, live_world))) = [(0, LoopPath)]
   \<and> releases (the_world (session_exec env_live (take 7 sched1)
        (replicate 2 StopSetFlag, live_thread, live_world))) = []
   \<and> (0::nat) < 2"
proof -
  let ?s = "session_exec env_live sched1 (replicate 2 StopSetFlag, live_thread, live_world)"
  let ?t = "session_exec env_live (take 7 sched1) (replicate 2 StopSetFlag, live_thread, live_world)"
  have fin: "qthread (the_thread ?s) = Finished"
    by (simp add: eval_nat_numeral sched1_run2 the_thread_def)
  have alive: "open_handles (the_world ?t) = [0]"
    by code_simp
  from capture_released_exactly_once [OF started_live refl, of sched1 2] fin
  have a: "releases (the_world ?s) = [(0, LoopPath)]" by blast
  from capture_released_exactly_once [OF started_live refl, of "take 7 sched1" 2] alive
  have b: "releases (the_world ?t) = []" by auto
  show ?thesis
    using started_live a b by simp
qed

theorem stop_streaming_idempotent_witness:
  "qthread CameraThread_init \<noteq> Alive \<and> is_idle CameraThread_init
   \<and> stop_streaming (CameraThread_init, world0) = Some (CameraThread_init, world0)
   \<and> start_streaming env_live (set_source (Device 0) CameraThread_init, world0) =
       (True, live_thread, live_world)
   \<and> fst (session_exec env_live sched1 ([StopSetFlag], live_thread, live_world)) = []
   \<and> stop_streaming (snd (session_exec env_live sched1 ([StopSetFlag], live_thread, live_world))) =
       Some (snd (session_exec env_live sched1 ([StopSetFlag], live_thread, live_world)))"
proof -
  have na: "qthread CameraThread_init \<noteq> Alive" and idle: "is_idle CameraThread_init"
    and nc: "cap CameraThread_init = None" and nr: "\<not> running CameraThread_init"
    by (simp_all add: CameraThread_init_def is_idle_def)
  have ret: "fst (session_exec env_live sched1 ([StopSetFlag], live_thread, live_world)) = []"
    by (simp add: sched1_run)
  note idem = stop_streaming_idempotent [OF na, of world0]
  from idem nr nc have "stop_streaming (CameraThread_init, world0) = Some (CameraThread_init, world0)"
    by blast
  moreover from idem started_live ret
  have "stop_streaming (snd (session_exec env_live sched1 ([StopSetFlag], live_thread, live_world))) =
       Some (snd (session_exec env_live sched1 ([StopSetFlag], live_thread, live_world)))"
    by blast
  ultimately show ?thesis
    using na idle started_live ret by simp
qed

section \<open>Sequences of starts and stops\<close>

lemma sess_inv_not_alive: "sess_inv ct w \<Longrightarrow> qthread ct \<noteq> Alive \<Longrightarrow> open_handles w = []"
  by (auto simp: sess_inv_def split: qthread.splits)

lemma sess_inv_run_step:
  assumes "sess_inv ct w" and "run_step e (ct, w) = (ct', w')"
  shows "sess_inv ct' w'"
proof (cases "qthread ct = Alive")
  case False
  then show ?thesis using assms by (simp add: run_step_def)
next
  case True
  show ?thesis
  proof (cases "pc ct")
    case (Check r)
    then show ?thesis using assms True
      by (cases r) (auto simp: run_step_def sess_inv_def split: option.splits)
  qed (use assms True in \<open>auto simp: run_step_def sess_inv_def split: if_splits option.splits\<close>)
qed

lemma stop_ok_run_step:
  assumes "stop_ok p ct" and "run_step e (ct, w) = (ct', w')"
  shows "stop_ok p ct'"
  using assms run_step_fields(3,4) [OF assms(2)]
  by (cases p) (auto simp: stop_ok_def)

lemma ui_ok_run_step:
  assumes "ui_ok u ct" and "run_step e (ct, w) = (ct', w')"
  shows "ui_ok u ct'"
  using assms run_step_fields(3,4) [OF assms(2)] stop_ok_run_step [OF _ assms(2)]
  by (cases u) (auto simp: ui_ok_def)

lemma anpr_inv_worker: "anpr_inv s \<Longrightarrow> anpr_inv (worker_step e s)"
proof (cases "camera_thread s")
  case None
  then show "anpr_inv s \<Longrightarrow> ?thesis" by (simp add: worker_step_def)
next
  case (Some ct)
  assume inv: "anpr_inv s"
  obtain ct' w' where r: "run_step e (ct, outside s) = (ct', w')"
    by (cases "run_step e (ct, outside s)")
  show ?thesis
    using inv Some r sess_inv_run_step [OF _ r] ui_ok_run_step [OF _ r]
    by (simp add: worker_step_def anpr_inv_def)
qed

lemma sess_inv_running [simp]: "sess_inv (ct\<lparr>running := b\<rparr>) w = sess_inv ct w"
  by (simp add: sess_inv_def split: qthread.splits run_pc.splits)

lemma stop_step_inv:
  assumes "sess_inv ct w" and "stop_ok p ct" and "stop_step (p, ct, w) = (p', ct', w')"
  shows "sess_inv ct' w'" and "p' \<noteq> StopRaised"
    and "p' \<noteq> StopReturned \<Longrightarrow> stop_ok p' ct'"
    and "p' = StopReturned \<Longrightarrow> qthread ct' \<noteq> Alive"
proof -
  have "sess_inv ct' w' \<and> p' \<noteq> StopRaised \<and> (p' \<noteq> StopReturned \<longrightarrow> stop_ok p' ct')
      \<and> (p' = StopReturned \<longrightarrow> qthread ct' \<noteq> Alive)"
  proof (cases p)
    case StopRelease
    then obtain h where h: "cap ct = Some h" and na: "qthread ct \<noteq> Alive"
      using assms(2) by (auto simp: stop_ok_def)
    have "open_handles w = []" using assms(1) na by (rule sess_inv_not_alive)
    then show ?thesis
      using assms StopRelease h na
      by (auto simp: stop_step_def stop_ok_def sess_inv_def release_def split: qthread.splits)
  next
    case StopClear
    then show ?thesis
      using assms
      by (auto simp: stop_step_def stop_ok_def sess_inv_def split: qthread.splits)
  qed (use assms in \<open>auto simp: stop_step_def stop_ok_def split: if_splits\<close>)
  then show "sess_inv ct' w'" "p' \<noteq> StopRaised"
    "p' \<noteq> StopReturned \<Longrightarrow> stop_ok p' ct'" "p' = StopReturned \<Longrightarrow> qthread ct' \<noteq> Alive"
    by simp_all
qed

lemma start_streaming_fresh:
  assumes "open_handles w = []"
      and "start_streaming e (set_source src CameraThread_init, w) = (ok, ct', w')"
  shows "sess_inv ct' w'"
  using assms
  by (auto simp: start_streaming_def VideoCapture_def isOpened_def emit_def cap_set_def
      qthread_start_def set_source_def CameraThread_init_def sess_inv_def Let_def
      split: if_splits)

lemma anpr_inv_ui:
  assumes "anpr_inv s"
  shows "anpr_inv (ui_step e s)"
proof (cases "ui s")
  case UiIdle
  then show ?thesis using assms
    by (auto simp: ui_step_def anpr_inv_def ui_ok_def ui_ok_none_def
        split: list.splits call.splits option.splits)
next
  case (StartIf src)
  then show ?thesis using assms
    by (auto simp: ui_step_def anpr_inv_def ui_ok_def ui_ok_none_def stop_ok_def isRunning_def
        split: option.splits)
next
  case (StartStopping src p)
  then obtain ct where ct: "camera_thread s = Some ct"
    and inv: "sess_inv ct (outside s)" and ok: "stop_ok p ct"
    using assms by (auto simp: anpr_inv_def ui_ok_def ui_ok_none_def split: option.splits)
  obtain p' ct' w' where r: "stop_step (p, ct, outside s) = (p', ct', w')"
    by (cases "stop_step (p, ct, outside s)")
  show ?thesis
    using StartStopping ct r stop_step_inv [OF inv ok r]
    by (auto simp: ui_step_def anpr_inv_def ui_ok_def Let_def)
next
  case (StartDrop src)
  then show ?thesis using assms
    by (auto simp: ui_step_def anpr_inv_def ui_ok_def ui_ok_none_def
        split: option.splits dest: sess_inv_not_alive)
next
  case (StartNew src)
  have empty: "open_handles (outside s) = []"
    using assms StartNew
    by (auto simp: anpr_inv_def ui_ok_def split: option.splits dest: sess_inv_not_alive)
  obtain r ct' w' where r: "start_streaming e (set_source src CameraThread_init, outside s) = (r, ct', w')"
    by (cases "start_streaming e (set_source src CameraThread_init, outside s)")
  show ?thesis
    using StartNew r start_streaming_fresh [OF empty r]
    by (simp add: ui_step_def anpr_inv_def ui_ok_def)
next
  case StopIf
  then show ?thesis using assms
    by (auto simp: ui_step_def anpr_inv_def ui_ok_def ui_ok_none_def stop_ok_def isRunning_def
        split: option.splits)
next
  case (StopStopping p)
  then obtain ct where ct: "camera_thread s = Some ct"
    and inv: "sess_inv ct (outside s)" and ok: "stop_ok p ct"
    using assms by (auto simp: anpr_inv_def ui_ok_def ui_ok_none_def split: option.splits)
  obtain p' ct' w' where r: "stop_step (p, ct, outside s) = (p', ct', w')"
    by (cases "stop_step (p, ct, outside s)")
  show ?thesis
    using StopStopping ct r stop_step_inv [OF inv ok r]
    by (auto simp: ui_step_def anpr_inv_def ui_ok_def Let_def)
next
  case StopDrop
  then show ?thesis using assms
    by (auto simp: ui_step_def anpr_inv_def ui_ok_def ui_ok_none_def
        split: option.splits dest: sess_inv_not_alive)
next
  case UiAborted
  then show ?thesis using assms by (simp add: ui_step_def)
qed

lemma anpr_inv_step: "anpr_inv s \<Longrightarrow> anpr_inv (anpr_step e s a)"
  by (cases a) (simp_all add: anpr_inv_ui anpr_inv_worker)

lemma anpr_inv_exec: "anpr_inv s \<Longrightarrow> anpr_inv (anpr_exec e sch s)"
  unfolding anpr_exec_def
  by (induction sch arbitrary: s) (simp_all add: anpr_inv_step)

lemma anpr_inv_init: "anpr_inv (anpr_init calls)"
  by (simp add: anpr_inv_def anpr_init_def world0_def ui_ok_none_def)

text \<open>
  C3. Let the user interface make any sequence of \<^verbatim>\<open>start_stream\<close> and
  \<^verbatim>\<open>stop_stream\<close> calls on an \<^verbatim>\<open>ANPRProcessor\<close>, interleaved in any way with the
  worker, whatever opens and whatever the reads return. At every moment at most one
  capture is open, and an open capture is the one held by the current thread object,
  whose thread is running. A \<^verbatim>\<open>start_stream\<close> that finds the old thread running goes
  into \<^verbatim>\<open>stop_streaming\<close> first, and when it comes to drop the old object and to open
  the new source, the old thread is not running and no capture is open. No call fails with
  an exception. In \<^verbatim>\<open>start_streaming\<close> itself the release of a capture left in
  \<^verbatim>\<open>self.cap\<close> comes before the open, so that a caller whose only open capture is that
  one has at most one open afterwards.
\<close>

theorem at_most_one_capture_open:
  assumes "s = anpr_exec e sch (anpr_init calls)"
  shows "length (open_handles (outside s)) \<le> 1
     \<and> (open_handles (outside s) \<noteq> [] \<longrightarrow>
          (\<exists>ct h. camera_thread s = Some ct \<and> isRunning ct \<and> cap ct = Some h
             \<and> open_handles (outside s) = [h]))
     \<and> (\<forall>src. ui s = StartNew src \<or> ui s = StartDrop src \<longrightarrow>
          open_handles (outside s) = []
          \<and> (\<forall>ct. camera_thread s = Some ct \<longrightarrow> \<not> isRunning ct))
     \<and> (\<forall>src ct. ui s = StartIf src \<and> camera_thread s = Some ct \<and> isRunning ct \<longrightarrow>
          ui (ui_step e s) = StartStopping src StopSetFlag
          \<and> outside (ui_step e s) = outside s)
     \<and> ui s \<noteq> UiAborted
     \<and> (\<forall>ct w ok ct' w'.
          set (open_handles w) \<subseteq> set_option (cap ct)
          \<and> start_streaming e (ct, w) = (ok, ct', w') \<longrightarrow>
          length (open_handles w') \<le> 1
          \<and> (\<exists>new. trace w' = trace w @ start_release ct @ new
                \<and> (\<forall>h p. Released h p \<notin> set new)))"
proof -
  have inv: "anpr_inv s"
    unfolding assms using anpr_inv_init by (rule anpr_inv_exec)
  have one: "length (open_handles (outside s)) \<le> 1
     \<and> (open_handles (outside s) \<noteq> [] \<longrightarrow>
          (\<exists>ct h. camera_thread s = Some ct \<and> isRunning ct \<and> cap ct = Some h
             \<and> open_handles (outside s) = [h]))"
    using inv
    by (auto simp: anpr_inv_def sess_inv_def isRunning_def
        split: option.splits qthread.splits run_pc.splits)
  have new: "open_handles (outside s) = [] \<and> (\<forall>ct. camera_thread s = Some ct \<longrightarrow> \<not> isRunning ct)"
    if "ui s = StartNew src \<or> ui s = StartDrop src" for src
    using inv that
    by (auto simp: anpr_inv_def ui_ok_def isRunning_def split: option.splits
        dest: sess_inv_not_alive)
  have stops: "ui (ui_step e s) = StartStopping src StopSetFlag \<and> outside (ui_step e s) = outside s"
    if "ui s = StartIf src \<and> camera_thread s = Some ct \<and> isRunning ct" for src ct
    using that by (simp add: ui_step_def)
  have na: "ui s \<noteq> UiAborted"
    using inv by (auto simp: anpr_inv_def ui_ok_def ui_ok_none_def split: option.splits)
  have direct: "length (open_handles w') \<le> 1
          \<and> (\<exists>new. trace w' = trace w @ start_release ct @ new
                \<and> (\<forall>h p. Released h p \<notin> set new))"
    if "set (open_handles w) \<subseteq> set_option (cap ct) \<and> start_streaming e (ct, w) = (ok, ct', w')"
    for ct w ok ct' w'
  proof -
    have gone: "(case cap ct of Some old \<Rightarrow> removeAll old (open_handles w) | None \<Rightarrow> open_handles w) = []"
      using that by (cases "cap ct") (auto simp: removeAll_filter_not_eq filter_empty_conv)
    show ?thesis
    proof (cases "open_ok e (next_handle w) (source ct)")
      case True
      show ?thesis
        using that gone unfolding start_streaming_succeeds [OF True] by auto
    next
      case False
      have "start_streaming e (ct, w) =
        (False, ct\<lparr>cap := Some (next_handle w)\<rparr>,
         w\<lparr>next_handle := Suc (next_handle w),
           open_handles := (case cap ct of Some old \<Rightarrow> removeAll old (open_handles w) | None \<Rightarrow> open_handles w),
           trace := trace w @ start_release ct @
             [OpenFailed (next_handle w) (source ct),
              ErrorOccurred (''Failed to open camera source: '' @ str_source (source ct))]\<rparr>)"
        using False gone
        by (cases "cap ct")
           (auto simp: start_streaming_def VideoCapture_def isOpened_def release_def emit_def
             start_release_def Let_def)
      then show ?thesis
        using that gone by auto
    qed
  qed
  show ?thesis
    using one new stops na direct by blast
qed

theorem at_most_one_capture_open_witness:
  "ui (anpr_exec env_live (take 22 sched2) (anpr_init two_starts)) = StartNew (Device 1)
   \<and> open_handles (outside (anpr_exec env_live (take 22 sched2) (anpr_init two_starts))) = []
   \<and> open_handles (outside (anpr_exec env_live sched2 (anpr_init two_starts))) = [1]
   \<and> length (open_handles (outside (anpr_exec env_live sched2 (anpr_init two_starts)))) \<le> 1
   \<and> trace (outside (anpr_exec env_live sched2 (anpr_init two_starts))) =
       [Opened 0 (Device 0), PropSet 0 CAP_PROP_FRAME_WIDTH 1280,
        PropSet 0 CAP_PROP_FRAME_HEIGHT 720, PropSet 0 CAP_PROP_FPS 30, ThreadStarted,
        FrameReadyRaw 0, FrameReady 0, FrameReadyRaw 1, FrameReady 1, Released 0 LoopPath,
        Opened 1 (Device 1), PropSet 1 CAP_PROP_FRAME_WIDTH 1280,
        PropSet 1 CAP_PROP_FRAME_HEIGHT 720, PropSet 1 CAP_PROP_FPS 30, ThreadStarted]"
proof -
  let ?mid = "anpr_exec env_live (take 22 sched2) (anpr_init two_starts)"
  let ?fin = "anpr_exec env_live sched2 (anpr_init two_starts)"
  have mid: "ui ?mid = StartNew (Device 1)"
    by code_simp
  have tr: "trace (outside ?fin) =
       [Opened 0 (Device 0), PropSet 0 CAP_PROP_FRAME_WIDTH 1280,
        PropSet 0 CAP_PROP_FRAME_HEIGHT 720, PropSet 0 CAP_PROP_FPS 30, ThreadStarted,
        FrameReadyRaw 0, FrameReady 0, FrameReadyRaw 1, FrameReady 1, Released 0 LoopPath,
        Opened 1 (Device 1), PropSet 1 CAP_PROP_FRAME_WIDTH 1280,
        PropSet 1 CAP_PROP_FRAME_HEIGHT 720, PropSet 1 CAP_PROP_FPS 30, ThreadStarted]"
    and op: "open_handles (outside ?fin) = [1]"
    by code_simp+
  from at_most_one_capture_open [OF refl, of env_live "take 22 sched2" two_starts] mid
  have "open_handles (outside ?mid) = []"
    by blast
  moreover from at_most_one_capture_open [OF refl, of env_live sched2 two_starts]
  have "length (open_handles (outside ?fin)) \<le> 1"
    by blast
  ultimately show ?thesis
    using mid tr op by simp
qed

end
